theory Spec2Isabelle
  imports Main "HOL-Library.Word" "HOL-Library.Multiset"
begin

section \<open>Data model of consensus/istanbul/backend/snapshot.go\<close>

text \<open>
  \<open>common.Address\<close> is a 20-byte array and \<open>common.Hash\<close> a 32-byte array; both are
  read big-endian as words, so that \<open>bytes.Compare\<close> on two addresses is the unsigned
  order of the words. \<open>uint64\<close> is a 64-bit word: \<open>+\<close> wraps and \<open>mod\<close> is unsigned.
\<close>

type_synonym address = "160 word"
type_synonym hash = "256 word"
type_synonym uint64 = "64 word"
type_synonym byte = "8 word"

text \<open>\<open>type Vote struct\<close>. The log holds pointers to votes that are never written after
  their creation, so a vote is modelled by its value.\<close>

record vote =
  Validator :: address
  Block :: uint64
  Address :: address
  Authorize :: bool

text \<open>\<open>type Tally struct\<close> (fields \<open>Authorize\<close> and \<open>Votes\<close>). \<open>Votes\<close> is a Go \<open>int\<close>;
  it is modelled as an unbounded integer (the count never exceeds the length of the
  vote log in the states the fold produces).\<close>

record tally =
  TallyAuthorize :: bool
  TallyVotes :: int

text \<open>Modelled from the spec: the \<open>istanbul.ValidatorSet\<close> capability, whose implementation
  is outside this file. The spec describes it as a set of authorized identities with
  membership lookup, insertion, removal, count, full listing, copy and an ordering-policy
  identifier, and construction from an identity list and a policy. The order of the
  listing (\<open>List()\<close>) is decided by the policy and is not fixed by the spec: the listing is
  a parameter of \<open>validators\<close> below.\<close>

record validatorSet =
  members :: "address set"
  policyId :: uint64

definition GetByAddress :: "validatorSet \<Rightarrow> address \<Rightarrow> address option" where
  "GetByAddress V a = (if a \<in> members V then Some a else None)"

definition AddValidator :: "validatorSet \<Rightarrow> address \<Rightarrow> validatorSet" where
  "AddValidator V a = V\<lparr>members := insert a (members V)\<rparr>"

definition RemoveValidator :: "validatorSet \<Rightarrow> address \<Rightarrow> validatorSet" where
  "RemoveValidator V a = V\<lparr>members := members V - {a}\<rparr>"

definition Size :: "validatorSet \<Rightarrow> int" where
  "Size V = int (card (members V))"

definition Copy :: "validatorSet \<Rightarrow> validatorSet" where
  "Copy V = V"

definition Policy :: "validatorSet \<Rightarrow> uint64" where
  "Policy V = policyId V"

definition NewSet :: "address list \<Rightarrow> uint64 \<Rightarrow> validatorSet" where
  "NewSet addrs pol = \<lparr>members = set addrs, policyId = pol\<rparr>"

text \<open>\<open>type Snapshot struct\<close>. A nil slice and an empty slice are both the empty list, a
  Go map is a partial function.\<close>

record snapshot =
  Epoch :: uint64
  Number :: uint64
  Hash :: hash
  Votes :: "vote list"
  Tally :: "address \<rightharpoonup> tally"
  ValSet :: validatorSet

text \<open>The errors the fold returns. \<open>errExternal\<close> stands for an error value produced by
  signer recovery. The last three are run-time panics: \<open>number % s.Epoch\<close> when the epoch
  is zero, the dereference of a nil pointer, and the assignment to an entry of a nil
  map.\<close>

datatype error =
    errInvalidVotingChain
  | errUnauthorized
  | errInvalidVote
  | errInvalidExtraDataFormat
  | errExternal string
  | panicDivideByZero
  | panicNilPointer
  | panicNilMap

text \<open>\<open>types.ValidatorVote\<close>, read by \<open>qbftApply\<close> through its two fields.\<close>

record validatorVote =
  RecipientAddress :: address
  VoteType :: byte

text \<open>\<open>types.Header\<close> is declared outside this file. The fold reads a header only through
  \<open>Number.Uint64()\<close>, \<open>Number.Int64()\<close>, \<open>Hash()\<close>, \<open>Coinbase\<close>, \<open>Nonce\<close> and the three
  functions \<open>ecrecoverFromSignedHeader\<close>, \<open>ecrecoverFromCoinbase\<close> and
  \<open>types.ExtractQbftExtra\<close>, each a deterministic function of the header; a header is
  modelled by what these return. \<open>HeaderNumber\<close> is \<open>Number.Uint64()\<close>, and
  \<open>Number.Int64()\<close> is the same 64 bits read as two's complement (\<open>sint\<close>).
  \<open>ExtractQbftExtra\<close> is \<open>Inr (Some v)\<close> for an embedded vote \<open>v\<close>, \<open>Inr None\<close> when the
  extension data decodes and its \<open>Vote\<close> is nil.\<close>

record header =
  HeaderNumber :: uint64
  HeaderHash :: hash
  Coinbase :: address
  Nonce :: "byte list"
  ecrecoverFromSignedHeader :: "error + address"
  ecrecoverFromCoinbase :: "error + address"
  ExtractQbftExtra :: "error + validatorVote option"

text \<open>The four reserved values are declared outside this file; the fold takes them as
  parameters.\<close>

record params =
  nonceAuthVote :: "byte list"
  nonceDropVote :: "byte list"
  QbftAuthVote :: byte
  QbftDropVote :: byte

section \<open>Operations\<close>

text \<open>\<open>newSnapshot\<close>: the genesis snapshot, with no votes and an empty tally.\<close>

definition newSnapshot :: "uint64 \<Rightarrow> uint64 \<Rightarrow> hash \<Rightarrow> validatorSet \<Rightarrow> snapshot" where
  "newSnapshot epoch number hash valSet =
     \<lparr>Epoch = epoch, Number = number, Hash = hash, Votes = [], Tally = Map.empty,
      ValSet = valSet\<rparr>"

text \<open>\<open>copy\<close>: on values, the deep copy is the snapshot with the validator set copied.\<close>

definition copy :: "snapshot \<Rightarrow> snapshot" where
  "copy s =
     \<lparr>Epoch = Epoch s, Number = Number s, Hash = Hash s, Votes = Votes s,
      Tally = Tally s, ValSet = Copy (ValSet s)\<rparr>"

definition checkVote :: "snapshot \<Rightarrow> address \<Rightarrow> bool \<Rightarrow> bool" where
  "checkVote s address authorize =
     (let validator = GetByAddress (ValSet s) address
      in (validator \<noteq> None \<and> \<not> authorize) \<or> (validator = None \<and> authorize))"

definition cast :: "snapshot \<Rightarrow> address \<Rightarrow> bool \<Rightarrow> snapshot \<times> bool" where
  "cast s address authorize =
     (if \<not> checkVote s address authorize then (s, False)
      else (case Tally s address of
              Some old \<Rightarrow>
                (s\<lparr>Tally := (Tally s)(address \<mapsto> old\<lparr>TallyVotes := TallyVotes old + 1\<rparr>)\<rparr>, True)
            | None \<Rightarrow>
                (s\<lparr>Tally := (Tally s)(address \<mapsto>
                     \<lparr>TallyAuthorize = authorize, TallyVotes = 1\<rparr>)\<rparr>, True)))"

definition uncast :: "snapshot \<Rightarrow> address \<Rightarrow> bool \<Rightarrow> snapshot \<times> bool" where
  "uncast s address authorize =
     (case Tally s address of
        None \<Rightarrow> (s, False)
      | Some t \<Rightarrow>
          if TallyAuthorize t \<noteq> authorize then (s, False)
          else if TallyVotes t > 1
               then (s\<lparr>Tally := (Tally s)(address \<mapsto> t\<lparr>TallyVotes := TallyVotes t - 1\<rparr>)\<rparr>, True)
               else (s\<lparr>Tally := (Tally s)(address := None)\<rparr>, True))"

text \<open>\<open>append(s.Votes[:i], s.Votes[i+1:]...)\<close>, for \<open>i < len(s.Votes)\<close>.\<close>

definition deleteAt :: "nat \<Rightarrow> 'a list \<Rightarrow> 'a list" where
  "deleteAt i xs = take i xs @ drop (i + 1) xs"

lemma length_deleteAt: "i < length xs \<Longrightarrow> length (deleteAt i xs) = length xs - 1"
  by (simp add: deleteAt_def)

lemma Votes_uncast: "Votes (fst (uncast s a b)) = Votes s"
  by (simp add: uncast_def split: option.split)

text \<open>The loop of \<open>legacyApply\<close> and \<open>qbftApply\<close> that discards the previous vote of the
  signer against the same target: it stops at the first match (\<open>break\<close>).\<close>

function discardPrevious :: "snapshot \<Rightarrow> address \<Rightarrow> address \<Rightarrow> nat \<Rightarrow> snapshot" where
  "discardPrevious s validator target i =
     (if i < length (Votes s) then
        (if Validator (Votes s ! i) = validator \<and> Address (Votes s ! i) = target then
           (let s1 = fst (uncast s (Address (Votes s ! i)) (Authorize (Votes s ! i)))
            in s1\<lparr>Votes := deleteAt i (Votes s1)\<rparr>)
         else discardPrevious s validator target (i + 1))
      else s)"
  by pat_completeness auto
termination
  by (relation "measure (\<lambda>(s, validator, target, i). length (Votes s) - i)") auto

declare discardPrevious.simps [simp del]

text \<open>The loop that discards the votes the deauthorized validator cast: each is reverted
  through \<open>uncast\<close> and deleted, and the index stays (\<open>i--\<close> then \<open>i++\<close>).\<close>

function discardVotesBy :: "snapshot \<Rightarrow> address \<Rightarrow> nat \<Rightarrow> snapshot" where
  "discardVotesBy s a i =
     (if i < length (Votes s) then
        (if Validator (Votes s ! i) = a then
           discardVotesBy
             ((fst (uncast s (Address (Votes s ! i)) (Authorize (Votes s ! i))))
                \<lparr>Votes := deleteAt i (Votes s)\<rparr>) a i
         else discardVotesBy s a (i + 1))
      else s)"
  by pat_completeness auto
termination
  by (relation "measure (\<lambda>(s, a, i). length (Votes s) - i)")
    (auto simp: length_deleteAt)

declare discardVotesBy.simps [simp del]

text \<open>The loop that discards the votes around the just changed account, without
  touching the tally.\<close>

function discardVotesOn :: "snapshot \<Rightarrow> address \<Rightarrow> nat \<Rightarrow> snapshot" where
  "discardVotesOn s a i =
     (if i < length (Votes s) then
        (if Address (Votes s ! i) = a then
           discardVotesOn (s\<lparr>Votes := deleteAt i (Votes s)\<rparr>) a i
         else discardVotesOn s a (i + 1))
      else s)"
  by pat_completeness auto
termination
  by (relation "measure (\<lambda>(s, a, i). length (Votes s) - i)")
    (auto simp: length_deleteAt)

declare discardVotesOn.simps [simp del]

text \<open>\<open>if s.cast(target, authorize) { s.Votes = append(s.Votes, &Vote{...}) }\<close>.\<close>

definition castVote :: "snapshot \<Rightarrow> address \<Rightarrow> uint64 \<Rightarrow> address \<Rightarrow> bool \<Rightarrow> snapshot" where
  "castVote s validator number target authorize =
     (case cast s target authorize of
        (s1, True) \<Rightarrow>
          s1\<lparr>Votes := Votes s1 @
                [\<lparr>Validator = validator, Block = number, Address = target,
                  Authorize = authorize\<rparr>]\<rparr>
      | (s1, False) \<Rightarrow> s1)"

text \<open>\<open>s.Tally[target]\<close> read as a value: the zero \<open>Tally\<close> when the key is absent.\<close>

definition tallyOf :: "snapshot \<Rightarrow> address \<Rightarrow> tally" where
  "tallyOf s a =
     (case Tally s a of Some t \<Rightarrow> t | None \<Rightarrow> \<lparr>TallyAuthorize = False, TallyVotes = 0\<rparr>)"

text \<open>"If the vote passed, update the list of validators": the last block of
  \<open>legacyApply\<close> and of \<open>qbftApply\<close>.\<close>

definition resolve :: "snapshot \<Rightarrow> address \<Rightarrow> snapshot" where
  "resolve s target =
     (let t = tallyOf s target in
      if TallyVotes t > Size (ValSet s) div 2 then
        (let s1 = (if TallyAuthorize t
                   then s\<lparr>ValSet := AddValidator (ValSet s) target\<rparr>
                   else discardVotesBy
                          (s\<lparr>ValSet := RemoveValidator (ValSet s) target\<rparr>) target 0);
             s2 = discardVotesOn s1 target 0
         in s2\<lparr>Tally := (Tally s2)(target := None)\<rparr>)
      else s)"

text \<open>"Remove any votes on checkpoint blocks". The caller has checked that the epoch is
  not zero.\<close>

definition checkpoint :: "snapshot \<Rightarrow> uint64 \<Rightarrow> snapshot" where
  "checkpoint s number =
     (if number mod Epoch s = 0 then s\<lparr>Votes := [], Tally := Map.empty\<rparr> else s)"

definition legacyApply :: "params \<Rightarrow> snapshot \<Rightarrow> header \<Rightarrow> error + snapshot" where
  "legacyApply K s hdr =
     (let number = HeaderNumber hdr in
      if Epoch s = 0 then Inl panicDivideByZero
      else
        (let s0 = checkpoint s number in
         case ecrecoverFromSignedHeader hdr of
           Inl err \<Rightarrow> Inl err
         | Inr validator \<Rightarrow>
             if GetByAddress (ValSet s0) validator = None then Inl errUnauthorized
             else
               (let s1 = discardPrevious s0 validator (Coinbase hdr) 0 in
                if Nonce hdr = nonceAuthVote K
                then Inr (resolve (castVote s1 validator number (Coinbase hdr) True)
                            (Coinbase hdr))
                else if Nonce hdr = nonceDropVote K
                then Inr (resolve (castVote s1 validator number (Coinbase hdr) False)
                            (Coinbase hdr))
                else Inl errInvalidVote)))"

definition qbftApply :: "params \<Rightarrow> snapshot \<Rightarrow> header \<Rightarrow> error + snapshot" where
  "qbftApply K s hdr =
     (let number = HeaderNumber hdr in
      if Epoch s = 0 then Inl panicDivideByZero
      else
        (let s0 = checkpoint s number in
         case ecrecoverFromCoinbase hdr of
           Inl err \<Rightarrow> Inl err
         | Inr validator \<Rightarrow>
             if GetByAddress (ValSet s0) validator = None then Inl errUnauthorized
             else
               (case ExtractQbftExtra hdr of
                  Inl err \<Rightarrow> Inl errInvalidExtraDataFormat
                | Inr qbftVote \<Rightarrow>
                    (let validatorVote =
                           (case qbftVote of
                              None \<Rightarrow> \<lparr>RecipientAddress = 0, VoteType = QbftDropVote K\<rparr>
                            | Some v \<Rightarrow> v);
                         s1 = discardPrevious s0 validator (RecipientAddress validatorVote) 0
                     in
                       if VoteType validatorVote = QbftAuthVote K
                       then Inr (resolve
                                   (castVote s1 validator number
                                      (RecipientAddress validatorVote) True)
                                   (RecipientAddress validatorVote))
                       else if VoteType validatorVote = QbftDropVote K
                       then Inr (resolve
                                   (castVote s1 validator number
                                      (RecipientAddress validatorVote) False)
                                   (RecipientAddress validatorVote))
                       else Inl errInvalidVote))))"

text \<open>The sanity loop of \<open>apply\<close>: \<open>for i := 0; i < len(headers)-1; i++\<close>, on a
  non-empty list.\<close>

function checkChain :: "header list \<Rightarrow> nat \<Rightarrow> bool" where
  "checkChain headers i =
     (if i + 1 < length headers then
        (if HeaderNumber (headers ! (i + 1)) \<noteq> HeaderNumber (headers ! i) + 1 then False
         else checkChain headers (i + 1))
      else True)"
  by pat_completeness auto
termination
  by (relation "measure (\<lambda>(headers, i). length headers - i)") auto

declare checkChain.simps [simp del]

text \<open>The loop of \<open>apply\<close> over the headers: the first error ends it.\<close>

fun applyLoop :: "params \<Rightarrow> bool \<Rightarrow> uint64 \<Rightarrow> snapshot \<Rightarrow> header list \<Rightarrow> error + snapshot" where
  "applyLoop K isQBFTConsensus qbftBlockNumber snap [] = Inr snap"
| "applyLoop K isQBFTConsensus qbftBlockNumber snap (hdr # headers) =
     (case (if isQBFTConsensus \<and> sint (HeaderNumber hdr) > sint qbftBlockNumber
            then qbftApply K snap hdr else legacyApply K snap hdr) of
        Inl err \<Rightarrow> Inl err
      | Inr snap' \<Rightarrow> applyLoop K isQBFTConsensus qbftBlockNumber snap' headers)"

text \<open>\<open>apply\<close> on snapshot values (\<open>qbftBlockNumber\<close> is an \<open>int64\<close>, compared signed).\<close>

definition apply_headers ::
  "params \<Rightarrow> snapshot \<Rightarrow> header list \<Rightarrow> bool \<Rightarrow> uint64 \<Rightarrow> error + snapshot" where
  "apply_headers K s headers isQBFTConsensus qbftBlockNumber =
     (if length headers = 0 then Inr s
      else if \<not> checkChain headers 0 then Inl errInvalidVotingChain
      else if HeaderNumber (headers ! 0) \<noteq> Number s + 1 then Inl errInvalidVotingChain
      else
        (case applyLoop K isQBFTConsensus qbftBlockNumber (copy s) headers of
           Inl err \<Rightarrow> Inl err
         | Inr snap \<Rightarrow>
             Inr (snap\<lparr>Number := Number snap + of_nat (length headers),
                       Hash := HeaderHash (headers ! (length headers - 1))\<rparr>)))"

section \<open>The loops as list functions\<close>

text \<open>Reverting one log entry through the tally, as the loops do.\<close>

definition revert :: "snapshot \<Rightarrow> vote \<Rightarrow> snapshot" where
  "revert s v = fst (uncast s (Address v) (Authorize v))"

text \<open>Removing the first element that satisfies a predicate.\<close>

fun removeFirst :: "('a \<Rightarrow> bool) \<Rightarrow> 'a list \<Rightarrow> 'a list" where
  "removeFirst P [] = []"
| "removeFirst P (x # xs) = (if P x then xs else x # removeFirst P xs)"

definition sameVote :: "address \<Rightarrow> address \<Rightarrow> vote \<Rightarrow> bool" where
  "sameVote validator target v = (Validator v = validator \<and> Address v = target)"

lemma take_deleteAt: "i < length xs \<Longrightarrow> take i (deleteAt i xs) = take i xs"
  by (simp add: deleteAt_def)

lemma drop_deleteAt: "i < length xs \<Longrightarrow> drop i (deleteAt i xs) = drop (i + 1) xs"
  by (simp add: deleteAt_def)

lemma drop_nth: "i < length xs \<Longrightarrow> drop i xs = xs ! i # drop (i + 1) xs"
  by (simp add: Cons_nth_drop_Suc)

lemma take_next: "i < length xs \<Longrightarrow> take (i + 1) xs = take i xs @ [xs ! i]"
  by (simp add: take_Suc_conv_app_nth)

lemma revert_Votes_update: "revert (s\<lparr>Votes := l\<rparr>) v = (revert s v)\<lparr>Votes := l\<rparr>"
  by (simp add: revert_def uncast_def split: option.split)

lemma foldl_revert_Votes_update:
  "foldl revert (s\<lparr>Votes := l\<rparr>) vs = (foldl revert s vs)\<lparr>Votes := l\<rparr>"
  by (induction vs arbitrary: s) (simp_all add: revert_Votes_update)

lemma Votes_revert: "Votes (revert s v) = Votes s"
  by (simp add: revert_def Votes_uncast)

lemma discardVotesOn_eq:
  "discardVotesOn s a i =
     s\<lparr>Votes := take i (Votes s) @ filter (\<lambda>v. Address v \<noteq> a) (drop i (Votes s))\<rparr>"
proof (induction s a i rule: discardVotesOn.induct)
  case (1 s a i)
  show ?case
  proof (cases "i < length (Votes s)")
    case False
    then show ?thesis by (subst discardVotesOn.simps) simp
  next
    case lt: True
    note d = drop_nth [OF lt]
    show ?thesis
    proof (cases "Address (Votes s ! i) = a")
      case True
      define s' where "s' = s\<lparr>Votes := deleteAt i (Votes s)\<rparr>"
      have a1: "drop i (Votes s') = drop (i + 1) (Votes s)"
        and a2: "take i (Votes s') = take i (Votes s)"
        by (simp_all add: s'_def drop_deleteAt [OF lt] take_deleteAt [OF lt])
      have "discardVotesOn s a i = discardVotesOn s' a i"
        unfolding s'_def using lt True by (subst discardVotesOn.simps) simp
      also have "\<dots> = s'\<lparr>Votes := take i (Votes s') @
                            filter (\<lambda>v. Address v \<noteq> a) (drop i (Votes s'))\<rparr>"
        using 1(1)[OF lt True, folded s'_def] .
      also have "\<dots> = s\<lparr>Votes := take i (Votes s) @
                            filter (\<lambda>v. Address v \<noteq> a) (drop i (Votes s))\<rparr>"
        unfolding a1 a2 d using True by (simp add: s'_def)
      finally show ?thesis .
    next
      case False
      have "discardVotesOn s a i = discardVotesOn s a (i + 1)"
        using lt False by (subst discardVotesOn.simps) simp
      also have "\<dots> = s\<lparr>Votes := take (i + 1) (Votes s) @
                            filter (\<lambda>v. Address v \<noteq> a) (drop (i + 1) (Votes s))\<rparr>"
        using 1(2)[OF lt False] .
      also have "\<dots> = s\<lparr>Votes := take i (Votes s) @
                            filter (\<lambda>v. Address v \<noteq> a) (drop i (Votes s))\<rparr>"
        unfolding d take_next [OF lt] using False by simp
      finally show ?thesis .
    qed
  qed
qed

lemma discardVotesBy_eq:
  "discardVotesBy s a i =
     (foldl revert s (filter (\<lambda>v. Validator v = a) (drop i (Votes s))))
       \<lparr>Votes := take i (Votes s) @ filter (\<lambda>v. Validator v \<noteq> a) (drop i (Votes s))\<rparr>"
proof (induction s a i rule: discardVotesBy.induct)
  case (1 s a i)
  show ?case
  proof (cases "i < length (Votes s)")
    case False
    then show ?thesis by (subst discardVotesBy.simps) simp
  next
    case lt: True
    note d = drop_nth [OF lt]
    show ?thesis
    proof (cases "Validator (Votes s ! i) = a")
      case True
      define s' where "s' = (revert s (Votes s ! i))\<lparr>Votes := deleteAt i (Votes s)\<rparr>"
      have s'_alt: "s' = (fst (uncast s (Address (Votes s ! i)) (Authorize (Votes s ! i))))
                \<lparr>Votes := deleteAt i (Votes s)\<rparr>"
        by (simp add: s'_def revert_def)
      have a1: "drop i (Votes s') = drop (i + 1) (Votes s)"
        and a2: "take i (Votes s') = take i (Votes s)"
        by (simp_all add: s'_def drop_deleteAt [OF lt] take_deleteAt [OF lt])
      have "discardVotesBy s a i = discardVotesBy s' a i"
        unfolding s'_alt using lt True by (subst discardVotesBy.simps) simp
      also have "\<dots> = (foldl revert s' (filter (\<lambda>v. Validator v = a) (drop i (Votes s'))))
          \<lparr>Votes := take i (Votes s') @ filter (\<lambda>v. Validator v \<noteq> a) (drop i (Votes s'))\<rparr>"
        using 1(1)[OF lt True, folded s'_alt] .
      also have "\<dots> = (foldl revert s (filter (\<lambda>v. Validator v = a) (drop i (Votes s))))
          \<lparr>Votes := take i (Votes s) @ filter (\<lambda>v. Validator v \<noteq> a) (drop i (Votes s))\<rparr>"
        unfolding a1 a2 d using True by (simp add: s'_def foldl_revert_Votes_update)
      finally show ?thesis .
    next
      case False
      have "discardVotesBy s a i = discardVotesBy s a (i + 1)"
        using lt False by (subst discardVotesBy.simps) simp
      also have "\<dots> = (foldl revert s (filter (\<lambda>v. Validator v = a) (drop (i + 1) (Votes s))))
          \<lparr>Votes := take (i + 1) (Votes s) @ filter (\<lambda>v. Validator v \<noteq> a) (drop (i + 1) (Votes s))\<rparr>"
        using 1(2)[OF lt False] .
      also have "\<dots> = (foldl revert s (filter (\<lambda>v. Validator v = a) (drop i (Votes s))))
          \<lparr>Votes := take i (Votes s) @ filter (\<lambda>v. Validator v \<noteq> a) (drop i (Votes s))\<rparr>"
        unfolding d take_next [OF lt] using False by simp
      finally show ?thesis .
    qed
  qed
qed

lemma discardPrevious_eq:
  "discardPrevious s validator target i =
     (case List.find (sameVote validator target) (drop i (Votes s)) of
        None \<Rightarrow> s
      | Some v \<Rightarrow> (revert s v)\<lparr>Votes := take i (Votes s) @
                        removeFirst (sameVote validator target) (drop i (Votes s))\<rparr>)"
proof (induction s validator target i rule: discardPrevious.induct)
  case (1 s validator target i)
  show ?case
  proof (cases "i < length (Votes s)")
    case False
    then show ?thesis by (subst discardPrevious.simps) simp
  next
    case lt: True
    note d = drop_nth [OF lt]
    show ?thesis
    proof (cases "sameVote validator target (Votes s ! i)")
      case True
      have c: "Validator (Votes s ! i) = validator \<and> Address (Votes s ! i) = target"
        using True by (simp add: sameVote_def)
      have "discardPrevious s validator target i =
           (let s1 = fst (uncast s (Address (Votes s ! i)) (Authorize (Votes s ! i)))
            in s1\<lparr>Votes := deleteAt i (Votes s1)\<rparr>)"
        by (subst discardPrevious.simps) (simp only: lt c if_True simp_thms)
      then have "discardPrevious s validator target i =
            (revert s (Votes s ! i))\<lparr>Votes := deleteAt i (Votes s)\<rparr>"
        by (simp only: Let_def revert_def Votes_uncast)
      then show ?thesis unfolding d using True by (simp add: deleteAt_def)
    next
      case False
      then have nm: "\<not> (Validator (Votes s ! i) = validator \<and> Address (Votes s ! i) = target)"
        by (simp add: sameVote_def)
      have "discardPrevious s validator target i = discardPrevious s validator target (i + 1)"
        by (subst discardPrevious.simps) (simp only: lt nm if_True if_False)
      also have "\<dots> = (case List.find (sameVote validator target) (drop (i + 1) (Votes s)) of
        None \<Rightarrow> s
      | Some v \<Rightarrow> (revert s v)\<lparr>Votes := take (i + 1) (Votes s) @
                        removeFirst (sameVote validator target) (drop (i + 1) (Votes s))\<rparr>)"
        using 1(1)[OF lt nm] .
      also have "\<dots> = (case List.find (sameVote validator target) (drop i (Votes s)) of
        None \<Rightarrow> s
      | Some v \<Rightarrow> (revert s v)\<lparr>Votes := take i (Votes s) @
                        removeFirst (sameVote validator target) (drop i (Votes s))\<rparr>)"
        unfolding d take_next [OF lt] using False by (simp split: option.split)
      finally show ?thesis .
    qed
  qed
qed


section \<open>Invariants of the fold\<close>

definition revertT :: "(address \<rightharpoonup> tally) \<Rightarrow> vote \<Rightarrow> (address \<rightharpoonup> tally)" where
  "revertT \<tau> v = Tally (revert \<lparr>Epoch = 0, Number = 0, Hash = 0, Votes = [], Tally = \<tau>,
                               ValSet = \<lparr>members = {}, policyId = 0\<rparr>\<rparr> v)"

lemma revertT_eq:
  "revertT \<tau> v =
     (case \<tau> (Address v) of
        None \<Rightarrow> \<tau>
      | Some t \<Rightarrow>
          if TallyAuthorize t \<noteq> Authorize v then \<tau>
          else if TallyVotes t > 1
               then \<tau>(Address v \<mapsto> t\<lparr>TallyVotes := TallyVotes t - 1\<rparr>)
               else \<tau>(Address v := None))"
  by (simp add: revertT_def revert_def uncast_def split: option.split)

lemma revert_eq: "revert s v = s\<lparr>Tally := revertT (Tally s) v\<rparr>"
  by (simp add: revertT_eq revert_def uncast_def split: option.split)

lemma foldl_revert_eq: "foldl revert s vs = s\<lparr>Tally := foldl revertT (Tally s) vs\<rparr>"
  by (induction vs arbitrary: s) (simp_all add: revert_eq)

definition tcM :: "(address \<rightharpoonup> tally) \<Rightarrow> vote multiset \<Rightarrow> bool" where
  "tcM \<tau> M =
     (\<forall>T. case \<tau> T of
            None \<Rightarrow> filter_mset (\<lambda>v. Address v = T) M = {#}
          | Some t \<Rightarrow>
              TallyVotes t = int (size (filter_mset (\<lambda>v. Address v = T) M)) \<and>
              1 \<le> TallyVotes t \<and>
              (\<forall>v. v \<in># M \<longrightarrow> Address v = T \<longrightarrow> Authorize v = TallyAuthorize t))"

lemma tcM_NoneD: "tcM \<tau> M \<Longrightarrow> \<tau> T = None \<Longrightarrow> filter_mset (\<lambda>v. Address v = T) M = {#}"
  unfolding tcM_def by (erule allE [of _ T]) simp

lemma tcM_count:
  "tcM \<tau> M \<Longrightarrow> \<tau> T = Some t \<Longrightarrow>
     TallyVotes t = int (size (filter_mset (\<lambda>v. Address v = T) M))"
  unfolding tcM_def by (erule allE [of _ T]) simp

lemma tcM_pos: "tcM \<tau> M \<Longrightarrow> \<tau> T = Some t \<Longrightarrow> 1 \<le> TallyVotes t"
  unfolding tcM_def by (erule allE [of _ T]) simp

lemma tcM_intent:
  "tcM \<tau> M \<Longrightarrow> \<tau> T = Some t \<Longrightarrow> v \<in># M \<Longrightarrow> Address v = T \<Longrightarrow>
     Authorize v = TallyAuthorize t"
proof -
  assume a: "tcM \<tau> M" "\<tau> T = Some t" "v \<in># M" "Address v = T"
  have "case \<tau> T of
          None \<Rightarrow> filter_mset (\<lambda>v. Address v = T) M = {#}
        | Some t \<Rightarrow>
            TallyVotes t = int (size (filter_mset (\<lambda>v. Address v = T) M)) \<and> 1 \<le> TallyVotes t \<and>
            (\<forall>v. v \<in># M \<longrightarrow> Address v = T \<longrightarrow> Authorize v = TallyAuthorize t)"
    using a(1) unfolding tcM_def by (rule spec)
  then have "\<forall>v. v \<in># M \<longrightarrow> Address v = T \<longrightarrow> Authorize v = TallyAuthorize t"
    unfolding a(2) option.case by (elim conjE)
  then show ?thesis using a(3,4) by blast
qed

lemma tcM_I:
  assumes "\<And>T. \<tau> T = None \<Longrightarrow> filter_mset (\<lambda>v. Address v = T) M = {#}"
    and "\<And>T t. \<tau> T = Some t \<Longrightarrow>
           TallyVotes t = int (size (filter_mset (\<lambda>v. Address v = T) M))"
    and "\<And>T t. \<tau> T = Some t \<Longrightarrow> 1 \<le> TallyVotes t"
    and "\<And>T t v. \<tau> T = Some t \<Longrightarrow> v \<in># M \<Longrightarrow> Address v = T \<Longrightarrow>
           Authorize v = TallyAuthorize t"
  shows "tcM \<tau> M"
  unfolding tcM_def
proof
  fix T
  show "case \<tau> T of
          None \<Rightarrow> filter_mset (\<lambda>v. Address v = T) M = {#}
        | Some t \<Rightarrow>
            TallyVotes t = int (size (filter_mset (\<lambda>v. Address v = T) M)) \<and> 1 \<le> TallyVotes t \<and>
            (\<forall>v. v \<in># M \<longrightarrow> Address v = T \<longrightarrow> Authorize v = TallyAuthorize t)"
  proof (cases "\<tau> T")
    case None
    then show ?thesis using assms(1) [OF None] by simp
  next
    case (Some t)
    have "\<forall>v. v \<in># M \<longrightarrow> Address v = T \<longrightarrow> Authorize v = TallyAuthorize t"
      using assms(4) [OF Some] by blast
    then show ?thesis using assms(2) [OF Some] assms(3) [OF Some]
      by (simp only: Some option.case simp_thms)
  qed
qed

lemma tcM_revertT:
  assumes tc: "tcM \<tau> (add_mset v M)"
  shows "tcM (revertT \<tau> v) M"
proof -
  have nn: "\<tau> (Address v) \<noteq> None"
  proof
    assume "\<tau> (Address v) = None"
    from tcM_NoneD [OF tc this] show False by simp
  qed
  then obtain t where t: "\<tau> (Address v) = Some t" by (auto simp only: not_None_eq)
  have cnt: "TallyVotes t = int (size (filter_mset (\<lambda>w. Address w = Address v) M)) + 1"
    using tcM_count [OF tc t] by simp
  have auth: "Authorize v = TallyAuthorize t"
    by (rule tcM_intent [OF tc t]) simp_all
  have other: "revertT \<tau> v T = \<tau> T" if "T \<noteq> Address v" for T
    using that by (simp add: revertT_eq split: option.split)
  have self: "revertT \<tau> v (Address v) =
      (if TallyVotes t > 1 then Some (t\<lparr>TallyVotes := TallyVotes t - 1\<rparr>) else None)"
    by (simp add: revertT_eq t auth)
  have cases: "(T \<noteq> Address v \<and> \<tau> T = Some t') \<or>
     (T = Address v \<and> TallyVotes t > 1 \<and> t' = t\<lparr>TallyVotes := TallyVotes t - 1\<rparr>)"
    if "revertT \<tau> v T = Some t'" for T t'
  proof (cases "T = Address v")
    case False
    then show ?thesis using that other by simp
  next
    case True
    then show ?thesis using that self by (simp split: if_splits)
  qed
  show ?thesis
  proof (rule tcM_I)
    fix T
    assume n: "revertT \<tau> v T = None"
    show "filter_mset (\<lambda>v. Address v = T) M = {#}"
    proof (cases "T = Address v")
      case False
      then have "\<tau> T = None" using n other by simp
      moreover have "Address v \<noteq> T" using False by auto
      ultimately show ?thesis using tcM_NoneD [OF tc, of T] by simp
    next
      case True
      then have "\<not> TallyVotes t > 1" using n self by (simp split: if_splits)
      then have "size (filter_mset (\<lambda>w. Address w = Address v) M) = 0"
        using cnt by simp
      then show ?thesis using True by simp
    qed
  next
    fix T t'
    assume s: "revertT \<tau> v T = Some t'"
    from cases [OF s] show "TallyVotes t' = int (size (filter_mset (\<lambda>v. Address v = T) M))"
    proof
      assume a: "T \<noteq> Address v \<and> \<tau> T = Some t'"
      then have "Address v \<noteq> T" "\<tau> T = Some t'" by auto
      then show ?thesis using tcM_count [OF tc, of T t'] by simp
    next
      assume "T = Address v \<and> TallyVotes t > 1 \<and> t' = t\<lparr>TallyVotes := TallyVotes t - 1\<rparr>"
      then show ?thesis using cnt by simp
    qed
    from cases [OF s] show "1 \<le> TallyVotes t'"
    proof
      assume a: "T \<noteq> Address v \<and> \<tau> T = Some t'"
      then show ?thesis using tcM_pos [OF tc, of T t'] by simp
    next
      assume "T = Address v \<and> TallyVotes t > 1 \<and> t' = t\<lparr>TallyVotes := TallyVotes t - 1\<rparr>"
      then show ?thesis by simp
    qed
  next
    fix T t' w
    assume s: "revertT \<tau> v T = Some t'" and w: "w \<in># M" "Address w = T"
    have w': "w \<in># add_mset v M" using w by simp
    from cases [OF s] show "Authorize w = TallyAuthorize t'"
    proof
      assume a: "T \<noteq> Address v \<and> \<tau> T = Some t'"
      then have "\<tau> T = Some t'" by simp
      from tcM_intent [OF tc this w' w(2)] show ?thesis .
    next
      assume a: "T = Address v \<and> TallyVotes t > 1 \<and> t' = t\<lparr>TallyVotes := TallyVotes t - 1\<rparr>"
      then have "Address w = Address v" using w by simp
      from tcM_intent [OF tc t w' this] show ?thesis using a by simp
    qed
  qed
qed

lemma tcM_foldl_revertT:
  "tcM \<tau> (M + mset rs) \<Longrightarrow> tcM (foldl revertT \<tau> rs) M"
proof (induction rs arbitrary: \<tau>)
  case Nil
  then show ?case by simp
next
  case (Cons r rs)
  have "tcM \<tau> (add_mset r (M + mset rs))" using Cons.prems by simp
  then have "tcM (revertT \<tau> r) (M + mset rs)" by (rule tcM_revertT)
  then show ?case using Cons.IH by simp
qed


definition tallyConsistent :: "snapshot \<Rightarrow> bool" where
  "tallyConsistent s = tcM (Tally s) (mset (Votes s))"

definition intentConsistent :: "snapshot \<Rightarrow> bool" where
  "intentConsistent s =
     (\<forall>T t. Tally s T = Some t \<longrightarrow> TallyAuthorize t = (T \<notin> members (ValSet s)))"

definition oneVote :: "snapshot \<Rightarrow> bool" where
  "oneVote s = (\<forall>S T. length (filter (sameVote S T) (Votes s)) \<le> 1)"

lemma find_None_filter: "List.find P xs = None \<Longrightarrow> filter P xs = []"
  by (induction xs) (auto split: if_splits)

lemma find_Some_removeFirst:
  "List.find P xs = Some v \<Longrightarrow> P v \<and> mset xs = add_mset v (mset (removeFirst P xs))"
  by (induction xs) (auto split: if_splits)

lemma filter_removeFirst_le:
  "length (filter Q (removeFirst P xs)) \<le> length (filter Q xs)"
  by (induction xs) auto

lemma filter_removeFirst_one:
  "length (filter P xs) \<le> 1 \<Longrightarrow> filter P (removeFirst P xs) = []"
  by (induction xs) (auto split: if_splits)

lemma revertT_SomeD:
  "revertT \<tau> v T = Some t' \<Longrightarrow> \<exists>t. \<tau> T = Some t \<and> TallyAuthorize t = TallyAuthorize t'"
  by (cases "T = Address v") (auto simp: revertT_eq split: option.splits if_splits)

lemma foldl_revertT_SomeD:
  "foldl revertT \<tau> vs T = Some t' \<Longrightarrow> \<exists>t. \<tau> T = Some t \<and> TallyAuthorize t = TallyAuthorize t'"
proof (induction vs arbitrary: \<tau>)
  case Nil
  then show ?case by simp
next
  case (Cons v vs)
  then obtain t1 where "revertT \<tau> v T = Some t1" "TallyAuthorize t1 = TallyAuthorize t'"
    by fastforce
  then show ?case using revertT_SomeD [of \<tau> v T t1] by auto
qed

text \<open>checkpoint\<close>

lemma checkpoint_cases: "checkpoint s n = s \<or> checkpoint s n = s\<lparr>Votes := [], Tally := Map.empty\<rparr>"
  by (simp add: checkpoint_def)

lemma tallyConsistent_checkpoint: "tallyConsistent s \<Longrightarrow> tallyConsistent (checkpoint s n)"
  by (auto simp: checkpoint_def tallyConsistent_def tcM_def)

lemma intentConsistent_checkpoint: "intentConsistent s \<Longrightarrow> intentConsistent (checkpoint s n)"
  by (auto simp: checkpoint_def intentConsistent_def)

lemma oneVote_checkpoint: "oneVote s \<Longrightarrow> oneVote (checkpoint s n)"
  by (auto simp: checkpoint_def oneVote_def)

lemma ValSet_checkpoint: "ValSet (checkpoint s n) = ValSet s"
  by (simp add: checkpoint_def)

text \<open>discardPrevious\<close>

lemma discardPrevious_0:
  "discardPrevious s validator target 0 =
     (case List.find (sameVote validator target) (Votes s) of
        None \<Rightarrow> s
      | Some v \<Rightarrow> s\<lparr>Votes := removeFirst (sameVote validator target) (Votes s),
                     Tally := revertT (Tally s) v\<rparr>)"
  by (simp add: discardPrevious_eq revert_eq split: option.split)

lemma ValSet_discardPrevious: "ValSet (discardPrevious s validator target 0) = ValSet s"
  by (simp add: discardPrevious_0 split: option.split)

lemma tallyConsistent_discardPrevious:
  assumes "tallyConsistent s"
  shows "tallyConsistent (discardPrevious s validator target 0)"
proof (cases "List.find (sameVote validator target) (Votes s)")
  case None
  then show ?thesis using assms by (simp add: discardPrevious_0)
next
  case (Some v)
  from find_Some_removeFirst [OF Some]
  have m: "mset (Votes s) = add_mset v (mset (removeFirst (sameVote validator target) (Votes s)))"
    by simp
  have "tcM (Tally s) (add_mset v (mset (removeFirst (sameVote validator target) (Votes s))))"
    using assms unfolding tallyConsistent_def m .
  then have "tcM (revertT (Tally s) v) (mset (removeFirst (sameVote validator target) (Votes s)))"
    by (rule tcM_revertT)
  then show ?thesis by (simp add: discardPrevious_0 Some tallyConsistent_def)
qed

lemma intentConsistent_discardPrevious:
  assumes "intentConsistent s"
  shows "intentConsistent (discardPrevious s validator target 0)"
proof (cases "List.find (sameVote validator target) (Votes s)")
  case None
  then show ?thesis using assms by (simp add: discardPrevious_0)
next
  case (Some v)
  show ?thesis
    unfolding intentConsistent_def
  proof (intro allI impI)
    fix T t'
    assume "Tally (discardPrevious s validator target 0) T = Some t'"
    then have "revertT (Tally s) v T = Some t'" by (simp add: discardPrevious_0 Some)
    from revertT_SomeD [OF this] obtain t where t: "Tally s T = Some t"
      "TallyAuthorize t = TallyAuthorize t'" by blast
    then have "TallyAuthorize t = (T \<notin> members (ValSet s))"
      using assms unfolding intentConsistent_def by blast
    then show "TallyAuthorize t' = (T \<notin> members (ValSet (discardPrevious s validator target 0)))"
      using t by (simp add: ValSet_discardPrevious)
  qed
qed

lemma oneVote_discardPrevious:
  assumes "oneVote s"
  shows "oneVote (discardPrevious s validator target 0)"
    and "filter (sameVote validator target) (Votes (discardPrevious s validator target 0)) = []"
proof -
  have le: "length (filter (sameVote S T) (Votes s)) \<le> 1" for S T
    using assms unfolding oneVote_def by blast
  show "oneVote (discardPrevious s validator target 0)"
    unfolding oneVote_def
  proof (intro allI)
    fix S T
    show "length (filter (sameVote S T) (Votes (discardPrevious s validator target 0))) \<le> 1"
    proof (cases "List.find (sameVote validator target) (Votes s)")
      case None
      then show ?thesis using le by (simp add: discardPrevious_0)
    next
      case (Some v)
      have "length (filter (sameVote S T) (removeFirst (sameVote validator target) (Votes s)))
            \<le> length (filter (sameVote S T) (Votes s))"
        by (rule filter_removeFirst_le)
      then show ?thesis using le [of S T] by (simp add: discardPrevious_0 Some)
    qed
  qed
  show "filter (sameVote validator target) (Votes (discardPrevious s validator target 0)) = []"
  proof (cases "List.find (sameVote validator target) (Votes s)")
    case None
    then show ?thesis by (simp add: discardPrevious_0 find_None_filter)
  next
    case (Some v)
    then show ?thesis
      by (simp add: discardPrevious_0 filter_removeFirst_one [OF le])
  qed
qed


text \<open>castVote\<close>

lemma checkVote_iff:
  "checkVote s a b = ((b \<and> a \<notin> members (ValSet s)) \<or> (\<not> b \<and> a \<in> members (ValSet s)))"
  by (auto simp: checkVote_def GetByAddress_def)

definition newTally :: "snapshot \<Rightarrow> address \<Rightarrow> bool \<Rightarrow> tally" where
  "newTally s target authorize =
     (case Tally s target of
        Some old \<Rightarrow> old\<lparr>TallyVotes := TallyVotes old + 1\<rparr>
      | None \<Rightarrow> \<lparr>TallyAuthorize = authorize, TallyVotes = 1\<rparr>)"

lemma castVote_eq:
  "castVote s validator number target authorize =
     (if checkVote s target authorize
      then s\<lparr>Tally := (Tally s)(target \<mapsto> newTally s target authorize),
             Votes := Votes s @ [\<lparr>Validator = validator, Block = number, Address = target,
                                  Authorize = authorize\<rparr>]\<rparr>
      else s)"
  by (simp add: castVote_def cast_def newTally_def split: option.split)

lemma ValSet_castVote: "ValSet (castVote s validator number target authorize) = ValSet s"
  by (simp add: castVote_eq)

lemma tallyConsistent_castVote:
  assumes tc: "tallyConsistent s" and ic: "intentConsistent s"
  shows "tallyConsistent (castVote s validator number target authorize)"
proof (cases "checkVote s target authorize")
  case False
  then show ?thesis using tc by (simp add: castVote_eq)
next
  case True
  define v where "v = \<lparr>Validator = validator, Block = number, Address = target,
                                  Authorize = authorize\<rparr>"
  define M where "M = mset (Votes s)"
  define nt where "nt = newTally s target authorize"
  have tcM: "tcM (Tally s) M" using tc by (simp add: tallyConsistent_def M_def)
  have av: "Address v = target" "Authorize v = authorize" by (simp_all add: v_def)
  have auth: "authorize = (target \<notin> members (ValSet s))"
    using True by (auto simp: checkVote_iff)
  have ntA: "TallyAuthorize nt = authorize"
  proof (cases "Tally s target")
    case None
    then show ?thesis by (simp add: nt_def newTally_def)
  next
    case (Some old)
    then have "TallyAuthorize old = (target \<notin> members (ValSet s))"
      using ic unfolding intentConsistent_def by blast
    then show ?thesis using auth Some by (simp add: nt_def newTally_def)
  qed
  have ntV: "TallyVotes nt = int (size (filter_mset (\<lambda>w. Address w = target) M)) + 1"
  proof (cases "Tally s target")
    case None
    from tcM_NoneD [OF tcM None] show ?thesis using None by (simp add: nt_def newTally_def)
  next
    case (Some old)
    from tcM_count [OF tcM Some] show ?thesis using Some by (simp add: nt_def newTally_def)
  qed
  have old_intent: "Authorize w = authorize" if "w \<in># M" "Address w = target" for w
  proof (cases "Tally s target")
    case None
    from tcM_NoneD [OF tcM None] have "w \<notin># filter_mset (\<lambda>w. Address w = target) M" by simp
    then show ?thesis using that by simp
  next
    case (Some old)
    have "TallyAuthorize old = (target \<notin> members (ValSet s))"
      using ic Some unfolding intentConsistent_def by blast
    then show ?thesis using tcM_intent [OF tcM Some that] auth by simp
  qed
  have "tcM ((Tally s)(target \<mapsto> nt)) (add_mset v M)"
  proof (rule tcM_I)
    fix T
    assume n: "((Tally s)(target \<mapsto> nt)) T = None"
    then have ne: "T \<noteq> target" and "Tally s T = None" by (auto split: if_splits)
    from tcM_NoneD [OF tcM this(2)] ne av
    show "filter_mset (\<lambda>v. Address v = T) (add_mset v M) = {#}" by auto
  next
    fix T t
    assume s: "((Tally s)(target \<mapsto> nt)) T = Some t"
    show "TallyVotes t = int (size (filter_mset (\<lambda>v. Address v = T) (add_mset v M)))"
    proof (cases "T = target")
      case True
      then show ?thesis using s ntV av by auto
    next
      case False
      then have "Tally s T = Some t" using s by simp
      from tcM_count [OF tcM this] show ?thesis using False av by auto
    qed
    show "1 \<le> TallyVotes t"
    proof (cases "T = target")
      case True
      then show ?thesis using s ntV by auto
    next
      case False
      then have "Tally s T = Some t" using s by simp
      from tcM_pos [OF tcM this] show ?thesis .
    qed
  next
    fix T t w
    assume s: "((Tally s)(target \<mapsto> nt)) T = Some t" and w: "w \<in># add_mset v M" "Address w = T"
    show "Authorize w = TallyAuthorize t"
    proof (cases "T = target")
      case True
      then have t: "TallyAuthorize t = authorize" using s ntA by auto
      show ?thesis
      proof (cases "w = v")
        case True
        then show ?thesis using t av by simp
      next
        case False
        then have "w \<in># M" using w by simp
        from old_intent [OF this] w True t show ?thesis by simp
      qed
    next
      case False
      then have st: "Tally s T = Some t" using s by simp
      have "w \<noteq> v" using False w av by auto
      then have "w \<in># M" using w by simp
      from tcM_intent [OF tcM st this w(2)] show ?thesis .
    qed
  qed
  then show ?thesis
    using True by (simp add: castVote_eq tallyConsistent_def M_def nt_def v_def)
qed

lemma intentConsistent_castVote:
  assumes ic: "intentConsistent s"
  shows "intentConsistent (castVote s validator number target authorize)"
proof (cases "checkVote s target authorize")
  case False
  then show ?thesis using ic by (simp add: castVote_eq)
next
  case True
  have auth: "authorize = (target \<notin> members (ValSet s))"
    using True by (auto simp: checkVote_iff)
  have ntA: "TallyAuthorize (newTally s target authorize) = authorize"
  proof (cases "Tally s target")
    case None
    then show ?thesis by (simp add: newTally_def)
  next
    case (Some old)
    then have "TallyAuthorize old = (target \<notin> members (ValSet s))"
      using ic unfolding intentConsistent_def by blast
    then show ?thesis using auth Some by (simp add: newTally_def)
  qed
  show ?thesis
    unfolding intentConsistent_def
  proof (intro allI impI)
    fix T t
    assume s: "Tally (castVote s validator number target authorize) T = Some t"
    show "TallyAuthorize t = (T \<notin> members (ValSet (castVote s validator number target authorize)))"
    proof (cases "T = target")
      case True
      then have "t = newTally s target authorize" using s \<open>checkVote s target authorize\<close>
        by (simp add: castVote_eq)
      then show ?thesis using ntA auth True by (simp add: ValSet_castVote)
    next
      case False
      then have "Tally s T = Some t" using s by (simp add: castVote_eq split: if_splits)
      then show ?thesis using ic unfolding intentConsistent_def
        by (simp add: ValSet_castVote)
    qed
  qed
qed

lemma oneVote_castVote:
  assumes ov: "oneVote s" and none: "filter (sameVote validator target) (Votes s) = []"
  shows "oneVote (castVote s validator number target authorize)"
proof (cases "checkVote s target authorize")
  case False
  then show ?thesis using ov by (simp add: castVote_eq)
next
  case True
  show ?thesis
    unfolding oneVote_def
  proof (intro allI)
    fix S T
    have le: "length (filter (sameVote S T) (Votes s)) \<le> 1"
      using ov unfolding oneVote_def by blast
    show "length (filter (sameVote S T)
            (Votes (castVote s validator number target authorize))) \<le> 1"
    proof (cases "S = validator \<and> T = target")
      case True
      then show ?thesis using none \<open>checkVote s target authorize\<close>
        by (simp add: castVote_eq)
    next
      case False
      then show ?thesis using le \<open>checkVote s target authorize\<close>
        by (auto simp: castVote_eq sameVote_def)
    qed
  qed
qed


text \<open>resolve\<close>

definition passed :: "snapshot \<Rightarrow> address \<Rightarrow> bool" where
  "passed s target = (TallyVotes (tallyOf s target) > Size (ValSet s) div 2)"

definition resolved :: "snapshot \<Rightarrow> address \<Rightarrow> snapshot" where
  "resolved s target =
     (if TallyAuthorize (tallyOf s target)
      then s\<lparr>ValSet := AddValidator (ValSet s) target,
             Votes := filter (\<lambda>v. Address v \<noteq> target) (Votes s),
             Tally := (Tally s)(target := None)\<rparr>
      else s\<lparr>ValSet := RemoveValidator (ValSet s) target,
             Votes := filter (\<lambda>v. Address v \<noteq> target)
                        (filter (\<lambda>v. Validator v \<noteq> target) (Votes s)),
             Tally := (foldl revertT (Tally s)
                         (filter (\<lambda>v. Validator v = target) (Votes s)))(target := None)\<rparr>)"

lemma discardVotesBy_0:
  "discardVotesBy s a 0 =
     s\<lparr>Votes := filter (\<lambda>v. Validator v \<noteq> a) (Votes s),
       Tally := foldl revertT (Tally s) (filter (\<lambda>v. Validator v = a) (Votes s))\<rparr>"
  by (simp add: discardVotesBy_eq foldl_revert_eq)

lemma discardVotesOn_0:
  "discardVotesOn s a 0 = s\<lparr>Votes := filter (\<lambda>v. Address v \<noteq> a) (Votes s)\<rparr>"
  by (simp add: discardVotesOn_eq)

lemma resolve_eq:
  "resolve s target = (if passed s target then resolved s target else s)"
  by (simp add: resolve_def passed_def resolved_def Let_def discardVotesBy_0 discardVotesOn_0)

lemma tcM_purge:
  assumes tc: "tcM \<tau> M"
  shows "tcM (\<tau>(T := None)) (filter_mset (\<lambda>v. Address v \<noteq> T) M)"
proof (rule tcM_I)
  fix T'
  assume n: "(\<tau>(T := None)) T' = None"
  show "filter_mset (\<lambda>v. Address v = T') (filter_mset (\<lambda>v. Address v \<noteq> T) M) = {#}"
  proof (cases "T' = T")
    case True
    then show ?thesis by simp
  next
    case False
    then have "\<tau> T' = None" using n by simp
    from tcM_NoneD [OF tc this] show ?thesis by simp
  qed
next
  fix T' t
  assume s: "(\<tau>(T := None)) T' = Some t"
  then have ne: "T' \<noteq> T" and st: "\<tau> T' = Some t" by (auto split: if_splits)
  have f: "filter_mset (\<lambda>v. Address v = T') (filter_mset (\<lambda>v. Address v \<noteq> T) M)
         = filter_mset (\<lambda>v. Address v = T') M"
    unfolding filter_filter_mset using ne by (intro filter_mset_cong0) auto
  show "TallyVotes t = int (size (filter_mset (\<lambda>v. Address v = T')
          (filter_mset (\<lambda>v. Address v \<noteq> T) M)))"
    unfolding f by (rule tcM_count [OF tc st])
  show "1 \<le> TallyVotes t" by (rule tcM_pos [OF tc st])
next
  fix T' t v
  assume s: "(\<tau>(T := None)) T' = Some t" and v: "v \<in># filter_mset (\<lambda>v. Address v \<noteq> T) M"
    "Address v = T'"
  then have st: "\<tau> T' = Some t" by (auto split: if_splits)
  have "v \<in># M" using v by simp
  from tcM_intent [OF tc st this v(2)] show "Authorize v = TallyAuthorize t" .
qed

lemma tallyConsistent_resolved:
  assumes tc: "tallyConsistent s"
  shows "tallyConsistent (resolved s target)"
proof (cases "TallyAuthorize (tallyOf s target)")
  case True
  have "tcM ((Tally s)(target := None)) (filter_mset (\<lambda>v. Address v \<noteq> target) (mset (Votes s)))"
    using tc unfolding tallyConsistent_def by (rule tcM_purge)
  then show ?thesis using True by (simp add: resolved_def tallyConsistent_def)
next
  case False
  have "mset (Votes s) = mset (filter (\<lambda>v. Validator v \<noteq> target) (Votes s)) +
          mset (filter (\<lambda>v. Validator v = target) (Votes s))"
    by (simp add: multiset_eq_iff)
  then have "tcM (Tally s) (mset (filter (\<lambda>v. Validator v \<noteq> target) (Votes s)) +
          mset (filter (\<lambda>v. Validator v = target) (Votes s)))"
    using tc unfolding tallyConsistent_def by simp
  then have "tcM (foldl revertT (Tally s) (filter (\<lambda>v. Validator v = target) (Votes s)))
               (mset (filter (\<lambda>v. Validator v \<noteq> target) (Votes s)))"
    by (rule tcM_foldl_revertT)
  then have "tcM ((foldl revertT (Tally s) (filter (\<lambda>v. Validator v = target) (Votes s)))
                    (target := None))
               (filter_mset (\<lambda>v. Address v \<noteq> target)
                  (mset (filter (\<lambda>v. Validator v \<noteq> target) (Votes s))))"
    by (rule tcM_purge)
  then show ?thesis using False
    by (simp add: resolved_def tallyConsistent_def filter_filter_mset)
qed

lemma intentConsistent_resolved:
  assumes ic: "intentConsistent s"
  shows "intentConsistent (resolved s target)"
  unfolding intentConsistent_def
proof (intro allI impI)
  fix T t'
  assume s: "Tally (resolved s target) T = Some t'"
  have ne: "T \<noteq> target" using s by (auto simp: resolved_def split: if_splits)
  have "\<exists>t. Tally s T = Some t \<and> TallyAuthorize t = TallyAuthorize t'"
  proof (cases "TallyAuthorize (tallyOf s target)")
    case True
    then show ?thesis using s ne by (simp add: resolved_def)
  next
    case False
    then have "foldl revertT (Tally s) (filter (\<lambda>v. Validator v = target) (Votes s)) T = Some t'"
      using s ne by (simp add: resolved_def)
    then show ?thesis by (rule foldl_revertT_SomeD)
  qed
  then obtain t where t: "Tally s T = Some t" "TallyAuthorize t = TallyAuthorize t'" by blast
  then have "TallyAuthorize t = (T \<notin> members (ValSet s))"
    using ic unfolding intentConsistent_def by blast
  moreover have "(T \<notin> members (ValSet (resolved s target))) = (T \<notin> members (ValSet s))"
    using ne by (simp add: resolved_def AddValidator_def RemoveValidator_def)
  ultimately show "TallyAuthorize t' = (T \<notin> members (ValSet (resolved s target)))"
    using t by simp
qed

lemma length_filter_filter_le:
  "length (filter P (filter Q xs)) \<le> length (filter P xs)"
  by (induction xs) auto

lemma oneVote_resolved:
  assumes ov: "oneVote s"
  shows "oneVote (resolved s target)"
  unfolding oneVote_def
proof (intro allI)
  fix S T
  have le: "length (filter (sameVote S T) (Votes s)) \<le> 1"
    using ov unfolding oneVote_def by blast
  have "length (filter (sameVote S T) (Votes (resolved s target)))
        \<le> length (filter (sameVote S T) (Votes s))"
  proof (cases "TallyAuthorize (tallyOf s target)")
    case True
    then show ?thesis
      using length_filter_filter_le [of "sameVote S T" "\<lambda>v. Address v \<noteq> target" "Votes s"]
      by (simp add: resolved_def)
  next
    case False
    have "length (filter (sameVote S T) (filter (\<lambda>v. Address v \<noteq> target)
             (filter (\<lambda>v. Validator v \<noteq> target) (Votes s))))
          \<le> length (filter (sameVote S T) (filter (\<lambda>v. Validator v \<noteq> target) (Votes s)))"
      by (rule length_filter_filter_le)
    also have "\<dots> \<le> length (filter (sameVote S T) (Votes s))"
      by (rule length_filter_filter_le)
    finally show ?thesis using False by (simp add: resolved_def)
  qed
  then show "length (filter (sameVote S T) (Votes (resolved s target))) \<le> 1"
    using le by simp
qed


text \<open>One header\<close>

definition foldInv :: "snapshot \<Rightarrow> bool" where
  "foldInv s = (tallyConsistent s \<and> intentConsistent s \<and> oneVote s)"

text \<open>The state on which the majority check runs: the previous vote of the signer
  against the target discarded, the new vote cast.\<close>

definition afterCast :: "snapshot \<Rightarrow> address \<Rightarrow> uint64 \<Rightarrow> address \<Rightarrow> bool \<Rightarrow> snapshot" where
  "afterCast s validator number target authorize =
     castVote (discardPrevious (checkpoint s number) validator target 0)
       validator number target authorize"

inductive reachable :: "params \<Rightarrow> snapshot \<Rightarrow> bool" for K :: params where
  genesis: "reachable K (newSnapshot epoch number hash valSet)"
| step: "reachable K s \<Longrightarrow>
         apply_headers K s headers isQBFTConsensus qbftBlockNumber = Inr s' \<Longrightarrow>
         reachable K s'"

lemma inv_resolve: "foldInv s \<Longrightarrow> foldInv (resolve s target)"
  by (simp add: foldInv_def resolve_eq tallyConsistent_resolved intentConsistent_resolved
      oneVote_resolved)

lemma inv_afterCast:
  assumes "foldInv s"
  shows "foldInv (afterCast s validator number target authorize)"
proof -
  define s0 where "s0 = checkpoint s number"
  define s1 where "s1 = discardPrevious s0 validator target 0"
  have i0: "tallyConsistent s0" "intentConsistent s0" "oneVote s0"
    using assms
    by (simp_all add: foldInv_def s0_def tallyConsistent_checkpoint intentConsistent_checkpoint
        oneVote_checkpoint)
  have i1: "tallyConsistent s1" "intentConsistent s1" "oneVote s1"
    "filter (sameVote validator target) (Votes s1) = []"
    unfolding s1_def
    by (rule tallyConsistent_discardPrevious [OF i0(1)]
        intentConsistent_discardPrevious [OF i0(2)] oneVote_discardPrevious [OF i0(3)])+
  have "foldInv (castVote s1 validator number target authorize)"
    unfolding foldInv_def
    by (intro conjI tallyConsistent_castVote intentConsistent_castVote oneVote_castVote i1)
  then show ?thesis by (simp add: afterCast_def s1_def s0_def)
qed

lemma legacyApply_InrD:
  assumes "legacyApply K s hdr = Inr s'"
  shows "\<exists>validator authorize.
           Epoch s \<noteq> 0 \<and> ecrecoverFromSignedHeader hdr = Inr validator \<and>
           validator \<in> members (ValSet s) \<and>
           (if Nonce hdr = nonceAuthVote K then authorize
            else Nonce hdr = nonceDropVote K \<and> \<not> authorize) \<and>
           s' = resolve (afterCast s validator (HeaderNumber hdr) (Coinbase hdr) authorize)
                  (Coinbase hdr)"
  using assms
  by (auto simp: legacyApply_def Let_def afterCast_def GetByAddress_def ValSet_checkpoint
      split: if_splits sum.splits)

lemma qbftApply_InrD:
  assumes "qbftApply K s hdr = Inr s'"
  shows "\<exists>validator qbftVote validatorVote authorize.
           Epoch s \<noteq> 0 \<and> ecrecoverFromCoinbase hdr = Inr validator \<and>
           validator \<in> members (ValSet s) \<and>
           ExtractQbftExtra hdr = Inr qbftVote \<and>
           validatorVote = (case qbftVote of
                              None \<Rightarrow> \<lparr>RecipientAddress = 0, VoteType = QbftDropVote K\<rparr>
                            | Some v \<Rightarrow> v) \<and>
           (if VoteType validatorVote = QbftAuthVote K then authorize
            else VoteType validatorVote = QbftDropVote K \<and> \<not> authorize) \<and>
           s' = resolve (afterCast s validator (HeaderNumber hdr)
                           (RecipientAddress validatorVote) authorize)
                  (RecipientAddress validatorVote)"
  using assms
  by (auto simp: qbftApply_def Let_def afterCast_def GetByAddress_def ValSet_checkpoint
      split: if_splits sum.splits)

lemma inv_legacyApply: "foldInv s \<Longrightarrow> legacyApply K s hdr = Inr s' \<Longrightarrow> foldInv s'"
  by (drule legacyApply_InrD) (auto intro: inv_resolve inv_afterCast)

lemma inv_qbftApply: "foldInv s \<Longrightarrow> qbftApply K s hdr = Inr s' \<Longrightarrow> foldInv s'"
  by (drule qbftApply_InrD) (auto intro: inv_resolve inv_afterCast)

lemma inv_applyLoop:
  "foldInv s \<Longrightarrow> applyLoop K q qb s headers = Inr s' \<Longrightarrow> foldInv s'"
proof (induction headers arbitrary: s)
  case Nil
  then show ?case by simp
next
  case (Cons hdr headers)
  define r where "r = (if q \<and> sint (HeaderNumber hdr) > sint qb then qbftApply K s hdr
          else legacyApply K s hdr)"
  have e: "(case r of Inl err \<Rightarrow> Inl err | Inr snap' \<Rightarrow> applyLoop K q qb snap' headers)
           = Inr s'"
    using Cons.prems(2) by (simp add: r_def)
  show ?case
  proof (cases r)
    case (Inl err)
    then show ?thesis using e by simp
  next
    case (Inr s1)
    then have rest: "applyLoop K q qb s1 headers = Inr s'" using e by simp
    have "qbftApply K s hdr = Inr s1 \<or> legacyApply K s hdr = Inr s1"
      using Inr unfolding r_def by (simp split: if_splits)
    then have "foldInv s1" using Cons.prems(1) inv_legacyApply inv_qbftApply by blast
    then show ?thesis using rest by (rule Cons.IH)
  qed
qed

lemma inv_fields:
  "foldInv (s\<lparr>Number := n, Hash := h\<rparr>) = foldInv s"
  by (simp add: foldInv_def tallyConsistent_def intentConsistent_def oneVote_def)

lemma inv_copy: "foldInv (copy s) = foldInv s"
  by (simp add: foldInv_def tallyConsistent_def intentConsistent_def oneVote_def copy_def Copy_def)

lemma inv_apply_headers:
  assumes "foldInv s" "apply_headers K s headers q qb = Inr s'"
  shows "foldInv s'"
proof (cases "length headers = 0")
  case True
  then show ?thesis using assms by (simp add: apply_headers_def)
next
  case False
  show ?thesis
  proof (cases "applyLoop K q qb (copy s) headers")
    case (Inl err)
    then show ?thesis using assms(2) False by (simp add: apply_headers_def split: if_splits)
  next
    case (Inr snap)
    then have s': "s' = snap\<lparr>Number := Number snap + of_nat (length headers),
                       Hash := HeaderHash (headers ! (length headers - 1))\<rparr>"
      using assms(2) False by (simp add: apply_headers_def split: if_splits)
    have "foldInv snap" using inv_applyLoop [OF _ Inr] assms(1) by (simp add: inv_copy)
    then show ?thesis by (simp add: s' inv_fields)
  qed
qed

lemma inv_newSnapshot: "foldInv (newSnapshot epoch number hash valSet)"
  by (simp add: foldInv_def newSnapshot_def tallyConsistent_def tcM_def intentConsistent_def
      oneVote_def)

lemma reachable_inv: "reachable K s \<Longrightarrow> foldInv s"
  by (induction rule: reachable.induct) (auto intro: inv_newSnapshot inv_apply_headers)


section \<open>Concrete runs\<close>

definition exParams :: params where
  "exParams = \<lparr>nonceAuthVote = [255, 255, 255, 255, 255, 255, 255, 255],
               nonceDropVote = [0, 0, 0, 0, 0, 0, 0, 0],
               QbftAuthVote = 255, QbftDropVote = 0\<rparr>"

definition exHeader :: "uint64 \<Rightarrow> address \<Rightarrow> address \<Rightarrow> bool \<Rightarrow> header" where
  "exHeader n signer target authorize =
     \<lparr>HeaderNumber = n, HeaderHash = ucast n, Coinbase = target,
      Nonce = (if authorize then nonceAuthVote exParams else nonceDropVote exParams),
      ecrecoverFromSignedHeader = Inr signer,
      ecrecoverFromCoinbase = Inr signer,
      ExtractQbftExtra = Inr (Some \<lparr>RecipientAddress = target,
                          VoteType = (if authorize then 255 else 0)\<rparr>)\<rparr>"

definition exGenesis :: "address set \<Rightarrow> snapshot" where
  "exGenesis V = newSnapshot 30000 100 0 \<lparr>members = V, policyId = 0\<rparr>"

definition exVote :: "address \<Rightarrow> uint64 \<Rightarrow> address \<Rightarrow> bool \<Rightarrow> vote" where
  "exVote signer n target authorize =
     \<lparr>Validator = signer, Block = n, Address = target, Authorize = authorize\<rparr>"

definition exTwoVotes :: snapshot where
  "exTwoVotes =
     \<lparr>Epoch = 30000, Number = 102, Hash = 102,
      Votes = [exVote 1 101 5 True, exVote 1 102 6 True],
      Tally = [5 \<mapsto> \<lparr>TallyAuthorize = True, TallyVotes = 1\<rparr>,
               6 \<mapsto> \<lparr>TallyAuthorize = True, TallyVotes = 1\<rparr>],
      ValSet = \<lparr>members = {1, 2, 3, 4}, policyId = 0\<rparr>\<rparr>"

lemmas ex_defs = exGenesis_def exHeader_def exParams_def exVote_def newSnapshot_def

lemmas fold_eval = apply_headers_def checkChain.simps copy_def Copy_def legacyApply_def
  qbftApply_def checkpoint_def GetByAddress_def discardPrevious_0 castVote_eq checkVote_iff
  resolve_eq passed_def resolved_def tallyOf_def Size_def newTally_def sameVote_def
  AddValidator_def RemoveValidator_def revertT_eq

lemma exTwoVotes_run:
  "apply_headers exParams (exGenesis {1, 2, 3, 4})
     [exHeader 101 1 5 True, exHeader 102 1 6 True] False 0 = Inr exTwoVotes"
  by (simp add: ex_defs fold_eval exTwoVotes_def)

lemma exTwoVotes_reachable: "reachable exParams exTwoVotes"
  by (rule reachable.step [OF reachable.genesis exTwoVotes_run [unfolded exGenesis_def]])


lemma length_filter_mset: "length (filter P xs) = size (filter_mset P (mset xs))"
  by (metis mset_filter size_mset)

lemma tallyConsistent_listD:
  assumes tc: "tallyConsistent s"
  shows "(Tally s T \<noteq> None) = (\<exists>v \<in> set (Votes s). Address v = T)"
    and "Tally s T = Some t \<Longrightarrow>
           TallyVotes t = int (length (filter (\<lambda>v. Address v = T) (Votes s)))"
    and "Tally s T = Some t \<Longrightarrow> 1 \<le> TallyVotes t"
    and "Tally s T = Some t \<Longrightarrow> v \<in> set (Votes s) \<Longrightarrow> Address v = T \<Longrightarrow>
           Authorize v = TallyAuthorize t"
proof -
  have tcM: "tcM (Tally s) (mset (Votes s))" using tc by (simp add: tallyConsistent_def)
  show "(Tally s T \<noteq> None) = (\<exists>v \<in> set (Votes s). Address v = T)"
  proof (cases "Tally s T")
    case None
    from tcM_NoneD [OF tcM None] show ?thesis using None by auto
  next
    case (Some t)
    from tcM_count [OF tcM Some] tcM_pos [OF tcM Some]
    have "1 \<le> length (filter (\<lambda>v. Address v = T) (Votes s))"
      by (simp add: length_filter_mset)
    then have "filter (\<lambda>v. Address v = T) (Votes s) \<noteq> []"
      by auto
    then have "\<exists>v \<in> set (Votes s). Address v = T"
      by (simp add: filter_empty_conv)
    then show ?thesis using Some by simp
  qed
  show "Tally s T = Some t \<Longrightarrow>
           TallyVotes t = int (length (filter (\<lambda>v. Address v = T) (Votes s)))"
    using tcM_count [OF tcM] by (simp add: length_filter_mset)
  show "Tally s T = Some t \<Longrightarrow> 1 \<le> TallyVotes t"
    using tcM_pos [OF tcM] .
  show "Tally s T = Some t \<Longrightarrow> v \<in> set (Votes s) \<Longrightarrow> Address v = T \<Longrightarrow>
           Authorize v = TallyAuthorize t"
    using tcM_intent [OF tcM, of T t v] by simp
qed

lemma uncast_own_entry:
  "Tally s T = Some t \<Longrightarrow>
   Tally (fst (uncast s T (TallyAuthorize t))) T =
     (if 1 < TallyVotes t then Some (t\<lparr>TallyVotes := TallyVotes t - 1\<rparr>) else None)"
  by (simp add: uncast_def)

text \<open>C3. In every snapshot reachable from a genesis snapshot by \<open>apply\<close>, the tally is
  consistent with the vote log: an address has a tally entry exactly when some log entry
  targets it; the count of the entry is the number of log entries targeting the address,
  each of them carries the intent of the entry, and the count is at least 1; reverting a
  vote from an entry of count 1 through \<open>uncast\<close> deletes the entry, so that no entry is
  kept at 0.\<close>

theorem tally_consistent_with_log:
  assumes "reachable K s"
  shows "(Tally s T \<noteq> None) = (\<exists>v \<in> set (Votes s). Address v = T) \<and>
         (\<forall>t. Tally s T = Some t \<longrightarrow>
            TallyVotes t = int (length (filter (\<lambda>v. Address v = T) (Votes s))) \<and>
            (\<forall>v \<in> set (Votes s). Address v = T \<longrightarrow> Authorize v = TallyAuthorize t) \<and>
            1 \<le> TallyVotes t \<and> TallyVotes t \<noteq> 0 \<and>
            Tally (fst (uncast s T (TallyAuthorize t))) T =
              (if 1 < TallyVotes t then Some (t\<lparr>TallyVotes := TallyVotes t - 1\<rparr>)
               else None))"
proof -
  have tc: "tallyConsistent s"
    using reachable_inv [OF assms] by (simp add: foldInv_def)
  note d = tallyConsistent_listD [OF tc]
  show ?thesis
  proof (intro conjI allI impI ballI)
    show "(Tally s T \<noteq> None) = (\<exists>v \<in> set (Votes s). Address v = T)" by (rule d(1))
  next
    fix t assume t: "Tally s T = Some t"
    show "TallyVotes t = int (length (filter (\<lambda>v. Address v = T) (Votes s)))"
      by (rule d(2) [OF t])
    show "1 \<le> TallyVotes t" by (rule d(3) [OF t])
    then show "TallyVotes t \<noteq> 0" by simp
    show "Tally (fst (uncast s T (TallyAuthorize t))) T =
              (if 1 < TallyVotes t then Some (t\<lparr>TallyVotes := TallyVotes t - 1\<rparr>)
               else None)"
      by (rule uncast_own_entry [OF t])
  next
    fix t v assume "Tally s T = Some t" "v \<in> set (Votes s)" "Address v = T"
    then show "Authorize v = TallyAuthorize t" by (rule d(4))
  qed
qed

theorem tally_consistent_with_log_witness:
  "reachable exParams exTwoVotes \<and>
   Tally exTwoVotes 5 = Some \<lparr>TallyAuthorize = True, TallyVotes = 1\<rparr> \<and>
   length (filter (\<lambda>v. Address v = 5) (Votes exTwoVotes)) = 1 \<and>
   Tally (fst (uncast exTwoVotes 5 True)) 5 = None"
proof -
  have t: "Tally exTwoVotes 5 = Some \<lparr>TallyAuthorize = True, TallyVotes = 1\<rparr>"
    by (simp add: exTwoVotes_def)
  from tally_consistent_with_log [OF exTwoVotes_reachable, of 5]
  have "int (length (filter (\<lambda>v. Address v = 5) (Votes exTwoVotes))) = 1 \<and>
        Tally (fst (uncast exTwoVotes 5 True)) 5 = None"
    by (simp add: t)
  then show ?thesis using exTwoVotes_reachable t by simp
qed


lemma find_Some_remove1: "List.find P xs = Some v \<Longrightarrow> removeFirst P xs = remove1 v xs"
proof (induction xs)
  case Nil
  then show ?case by simp
next
  case (Cons x xs)
  show ?case
  proof (cases "P x")
    case True
    then show ?thesis using Cons.prems by simp
  next
    case False
    then have f: "List.find P xs = Some v" using Cons.prems by simp
    have "P v" using find_Some_removeFirst [OF f] by simp
    then have "x \<noteq> v" using False by auto
    then show ?thesis using False Cons.IH [OF f] by simp
  qed
qed

lemma find_unique:
  "length (filter P xs) \<le> 1 \<Longrightarrow> v \<in> set xs \<Longrightarrow> P v \<Longrightarrow> List.find P xs = Some v"
proof (induction xs)
  case Nil
  then show ?case by simp
next
  case (Cons x xs)
  show ?case
  proof (cases "P x")
    case True
    then have "filter P xs = []" using Cons.prems(1) by simp
    then have "v \<notin> set xs" using Cons.prems(3) by (auto simp: filter_empty_conv)
    then show ?thesis using Cons.prems(2) True by simp
  next
    case False
    then show ?thesis using Cons by auto
  qed
qed

lemma oneVote_distinct_targets:
  "\<forall>T. length (filter (sameVote S T) xs) \<le> 1 \<Longrightarrow>
   distinct (map Address (filter (\<lambda>v. Validator v = S) xs))"
proof (induction xs)
  case Nil
  then show ?case by simp
next
  case (Cons x xs)
  have rest: "\<forall>T. length (filter (sameVote S T) xs) \<le> 1"
  proof
    fix T
    have "length (filter (sameVote S T) xs) \<le> length (filter (sameVote S T) (x # xs))"
      by simp
    also have "\<dots> \<le> 1" using Cons.prems by blast
    finally show "length (filter (sameVote S T) xs) \<le> 1" .
  qed
  show ?case
  proof (cases "Validator x = S")
    case False
    then show ?thesis using Cons.IH [OF rest] by simp
  next
    case True
    have "length (filter (sameVote S (Address x)) (x # xs)) \<le> 1" using Cons.prems by blast
    then have "filter (sameVote S (Address x)) xs = []"
      using True by (simp add: sameVote_def)
    then have "Address x \<notin> Address ` set (filter (\<lambda>v. Validator v = S) xs)"
      by (auto simp: filter_empty_conv sameVote_def)
    then show ?thesis using True Cons.IH [OF rest] by simp
  qed
qed

text \<open>C4. In every snapshot reachable from a genesis snapshot by \<open>apply\<close>, at most one log
  entry has a given signer \<open>S\<close> and a given target \<open>T\<close>. When \<open>S\<close> votes again on \<open>T\<close> in a
  header of number \<open>n\<close> and the log (after the checkpoint reset) holds an entry \<open>v\<close> of \<open>S\<close>
  against \<open>T\<close>, the state in which the new vote is cast is the one with \<open>v\<close> deleted from
  the log and the tally entry of \<open>T\<close> decremented, or removed when its count was 1, and
  no entry of \<open>S\<close> against \<open>T\<close> is left in it.\<close>

theorem one_vote_per_signer_and_target:
  assumes "reachable K s"
  shows "length (filter (\<lambda>v. Validator v = S \<and> Address v = T) (Votes s)) \<le> 1 \<and>
         (\<forall>v \<in> set (Votes (checkpoint s n)). Validator v = S \<and> Address v = T \<longrightarrow>
            (\<exists>t. Tally (checkpoint s n) T = Some t \<and>
               afterCast s S n T a =
                 castVote
                   ((checkpoint s n)
                      \<lparr>Votes := remove1 v (Votes (checkpoint s n)),
                       Tally := (Tally (checkpoint s n))
                          (T := if 1 < TallyVotes t
                                then Some (t\<lparr>TallyVotes := TallyVotes t - 1\<rparr>) else None)\<rparr>)
                   S n T a \<and>
               (\<forall>w \<in> set (remove1 v (Votes (checkpoint s n))).
                  \<not> (Validator w = S \<and> Address w = T))))"
proof (intro conjI ballI impI)
  have ov: "oneVote s" using reachable_inv [OF assms] by (simp add: foldInv_def)
  then show "length (filter (\<lambda>v. Validator v = S \<and> Address v = T) (Votes s)) \<le> 1"
    unfolding oneVote_def sameVote_def by blast
next
  fix v
  define s0 where "s0 = checkpoint s n"
  assume "v \<in> set (Votes (checkpoint s n))" and "Validator v = S \<and> Address v = T"
  then have v: "v \<in> set (Votes s0)" "sameVote S T v" "Address v = T"
    by (simp_all add: s0_def sameVote_def)
  have inv0: "tallyConsistent s0" "oneVote s0"
    using reachable_inv [OF assms]
    by (simp_all add: foldInv_def s0_def tallyConsistent_checkpoint oneVote_checkpoint)
  have le: "length (filter (sameVote S T) (Votes s0)) \<le> 1"
    using inv0(2) unfolding oneVote_def by blast
  have f: "List.find (sameVote S T) (Votes s0) = Some v"
    by (rule find_unique [OF le v(1,2)])
  have "Tally s0 T \<noteq> None"
    using tallyConsistent_listD(1) [OF inv0(1), of T] v by blast
  then obtain t where t: "Tally s0 T = Some t" by (auto simp only: not_None_eq)
  have au: "TallyAuthorize t = Authorize v"
    using tallyConsistent_listD(4) [OF inv0(1) t v(1) v(3)] by simp
  have r: "revertT (Tally s0) v =
        (Tally s0)(T := if 1 < TallyVotes t
                        then Some (t\<lparr>TallyVotes := TallyVotes t - 1\<rparr>) else None)"
    using t au v(3) by (simp add: revertT_eq)
  have d: "discardPrevious s0 S T 0 =
        s0\<lparr>Votes := remove1 v (Votes s0),
           Tally := (Tally s0)(T := if 1 < TallyVotes t
                        then Some (t\<lparr>TallyVotes := TallyVotes t - 1\<rparr>) else None)\<rparr>"
    by (simp add: discardPrevious_0 f find_Some_remove1 [OF f] r)
  have none: "filter (sameVote S T) (remove1 v (Votes s0)) = []"
    using filter_removeFirst_one [OF le] by (simp add: find_Some_remove1 [OF f])
  have left: "\<forall>w \<in> set (remove1 v (Votes s0)). \<not> (Validator w = S \<and> Address w = T)"
    using none by (simp add: filter_empty_conv sameVote_def)
  show "\<exists>t. Tally (checkpoint s n) T = Some t \<and>
               afterCast s S n T a =
                 castVote
                   ((checkpoint s n)
                      \<lparr>Votes := remove1 v (Votes (checkpoint s n)),
                       Tally := (Tally (checkpoint s n))
                          (T := if 1 < TallyVotes t
                                then Some (t\<lparr>TallyVotes := TallyVotes t - 1\<rparr>) else None)\<rparr>)
                   S n T a \<and>
               (\<forall>w \<in> set (remove1 v (Votes (checkpoint s n))).
                  \<not> (Validator w = S \<and> Address w = T))"
    using t d left unfolding afterCast_def s0_def [symmetric] by simp
qed

text \<open>C9 as amended. In every snapshot reachable from a genesis snapshot by \<open>apply\<close>, the
  pending votes of one signer are against pairwise different targets: a signer has at
  most one pending vote for each target, and may have pending votes against several
  targets at once.\<close>

theorem pending_votes_of_signer_distinct_targets:
  assumes "reachable K s"
  shows "distinct (map Address (filter (\<lambda>v. Validator v = S) (Votes s)))"
proof -
  have "oneVote s" using reachable_inv [OF assms] by (simp add: foldInv_def)
  then have "\<forall>T. length (filter (sameVote S T) (Votes s)) \<le> 1"
    unfolding oneVote_def by blast
  then show ?thesis by (rule oneVote_distinct_targets)
qed

text \<open>C10. In every snapshot reachable from a genesis snapshot by \<open>apply\<close>, the intent of
  every tally entry agrees with the membership of its address: an authorize entry is for
  an address outside the validator set, a deauthorize entry for a member. So a vote that
  \<open>checkVote\<close> accepts for an address with a tally entry has the intent of that entry,
  also in the state in which \<open>cast\<close> runs (after the checkpoint reset and the discard of
  the signer's previous vote).\<close>

theorem tally_intent_agrees_with_membership:
  assumes "reachable K s"
  shows "(\<forall>t. Tally s T = Some t \<longrightarrow>
            (TallyAuthorize t \<longrightarrow> T \<notin> members (ValSet s)) \<and>
            (\<not> TallyAuthorize t \<longrightarrow> T \<in> members (ValSet s))) \<and>
         (\<forall>t. Tally (discardPrevious (checkpoint s n) S T 0) T = Some t \<longrightarrow>
            checkVote (discardPrevious (checkpoint s n) S T 0) T a \<longrightarrow>
            TallyAuthorize t = a)"
proof -
  have ic: "intentConsistent s" using reachable_inv [OF assms] by (simp add: foldInv_def)
  have ic1: "intentConsistent (discardPrevious (checkpoint s n) S T 0)"
    by (intro intentConsistent_discardPrevious intentConsistent_checkpoint ic)
  show ?thesis
  proof (intro conjI allI impI)
    fix t assume t: "Tally s T = Some t"
    then have "TallyAuthorize t = (T \<notin> members (ValSet s))"
      using ic unfolding intentConsistent_def by blast
    then show "TallyAuthorize t \<Longrightarrow> T \<notin> members (ValSet s)"
      and "\<not> TallyAuthorize t \<Longrightarrow> T \<in> members (ValSet s)" by simp_all
  next
    fix t
    assume t: "Tally (discardPrevious (checkpoint s n) S T 0) T = Some t"
      and c: "checkVote (discardPrevious (checkpoint s n) S T 0) T a"
    have "TallyAuthorize t = (T \<notin> members (ValSet (discardPrevious (checkpoint s n) S T 0)))"
      using ic1 t unfolding intentConsistent_def by blast
    then show "TallyAuthorize t = a" using c by (auto simp: checkVote_iff)
  qed
qed


theorem one_vote_per_signer_and_target_witness:
  "reachable exParams exTwoVotes \<and>
   exVote 1 101 5 True \<in> set (Votes (checkpoint exTwoVotes 103)) \<and>
   length (filter (\<lambda>v. Validator v = 1 \<and> Address v = 5) (Votes exTwoVotes)) \<le> 1 \<and>
   Votes (afterCast exTwoVotes 1 103 5 True) = [exVote 1 102 6 True, exVote 1 103 5 True] \<and>
   Tally (afterCast exTwoVotes 1 103 5 True) 5 = Some \<lparr>TallyAuthorize = True, TallyVotes = 1\<rparr>"
proof -
  have c: "checkpoint exTwoVotes 103 = exTwoVotes"
    by (simp add: checkpoint_def exTwoVotes_def)
  have v: "exVote 1 101 5 True \<in> set (Votes (checkpoint exTwoVotes 103))"
    unfolding c by (simp add: exTwoVotes_def)
  have t: "Tally exTwoVotes 5 = Some \<lparr>TallyAuthorize = True, TallyVotes = 1\<rparr>"
    by (simp add: exTwoVotes_def)
  note inst = one_vote_per_signer_and_target [OF exTwoVotes_reachable, of 1 5 103 True]
  from inst have le: "length (filter (\<lambda>v. Validator v = 1 \<and> Address v = 5) (Votes exTwoVotes)) \<le> 1"
    by (rule conjunct1)
  from inst [THEN conjunct2, rule_format, OF v]
  have "afterCast exTwoVotes 1 103 5 True =
          castVote (exTwoVotes\<lparr>Votes := remove1 (exVote 1 101 5 True) (Votes exTwoVotes),
                               Tally := (Tally exTwoVotes)(5 := None)\<rparr>) 1 103 5 True"
    unfolding c by (simp add: t exVote_def)
  then have "Votes (afterCast exTwoVotes 1 103 5 True) =
               [exVote 1 102 6 True, exVote 1 103 5 True] \<and>
             Tally (afterCast exTwoVotes 1 103 5 True) 5 =
               Some \<lparr>TallyAuthorize = True, TallyVotes = 1\<rparr>"
    by (simp add: castVote_eq checkVote_iff newTally_def exTwoVotes_def exVote_def)
  then show ?thesis using exTwoVotes_reachable v le by simp
qed

theorem pending_votes_of_signer_distinct_targets_witness:
  "reachable exParams exTwoVotes \<and>
   map Address (filter (\<lambda>v. Validator v = 1) (Votes exTwoVotes)) = [5, 6] \<and>
   distinct (map Address (filter (\<lambda>v. Validator v = 1) (Votes exTwoVotes)))"
proof -
  have "map Address (filter (\<lambda>v. Validator v = 1) (Votes exTwoVotes)) = [5, 6]"
    by (simp add: exTwoVotes_def exVote_def)
  then show ?thesis
    using pending_votes_of_signer_distinct_targets [OF exTwoVotes_reachable, of 1]
      exTwoVotes_reachable by simp
qed

text \<open>C9 as stated fails: the snapshot reached from the genesis snapshot with validators
  1 to 4 by the headers 101 and 102, both signed by validator 1, voting to authorize 5
  and then 6, holds two pending votes of signer 1.\<close>

theorem one_pending_vote_per_signer_counterexample:
  "reachable exParams exTwoVotes \<and> map Validator (Votes exTwoVotes) = [1, 1] \<and>
   map Address (Votes exTwoVotes) = [5, 6]"
  using exTwoVotes_reachable by (simp add: exTwoVotes_def exVote_def)

theorem tally_intent_agrees_with_membership_witness:
  "reachable exParams exTwoVotes \<and>
   Tally exTwoVotes 5 = Some \<lparr>TallyAuthorize = True, TallyVotes = 1\<rparr> \<and>
   5 \<notin> members (ValSet exTwoVotes) \<and>
   checkVote (discardPrevious (checkpoint exTwoVotes 103) 2 5 0) 5 True"
proof -
  have t: "Tally exTwoVotes 5 = Some \<lparr>TallyAuthorize = True, TallyVotes = 1\<rparr>"
    by (simp add: exTwoVotes_def)
  have c: "checkVote (discardPrevious (checkpoint exTwoVotes 103) 2 5 0) 5 True"
    by (simp add: checkVote_iff ValSet_discardPrevious ValSet_checkpoint exTwoVotes_def)
  from tally_intent_agrees_with_membership [OF exTwoVotes_reachable, of 5 103 2 True]
  have "5 \<notin> members (ValSet exTwoVotes)" by (simp add: t)
  then show ?thesis using exTwoVotes_reachable t c by simp
qed


section \<open>No-op votes\<close>

lemma dom_revertT: "dom (revertT \<tau> v) \<subseteq> dom \<tau>"
  using revertT_SomeD [of \<tau> v] by (auto simp: dom_def)

lemma dom_foldl_revertT: "dom (foldl revertT \<tau> vs) \<subseteq> dom \<tau>"
  using foldl_revertT_SomeD [of \<tau> vs] by (auto simp: dom_def)

lemma mset_removeFirst: "mset (removeFirst P xs) \<subseteq># mset xs"
  by (induction xs) (auto intro: subset_mset.order_trans)

lemma checkpoint_shrinks:
  "dom (Tally (checkpoint s n)) \<subseteq> dom (Tally s) \<and>
   mset (Votes (checkpoint s n)) \<subseteq># mset (Votes s)"
  by (simp add: checkpoint_def)

lemma discardPrevious_shrinks:
  "dom (Tally (discardPrevious s S T 0)) \<subseteq> dom (Tally s) \<and>
   mset (Votes (discardPrevious s S T 0)) \<subseteq># mset (Votes s)"
  by (simp add: discardPrevious_0 dom_revertT mset_removeFirst split: option.split)

lemma resolve_shrinks:
  "dom (Tally (resolve s T)) \<subseteq> dom (Tally s) \<and> mset (Votes (resolve s T)) \<subseteq># mset (Votes s)"
proof -
  have a: "dom (foldl revertT (Tally s) (filter (\<lambda>v. Validator v = T) (Votes s))) - {T}
           \<subseteq> dom (Tally s)"
    using dom_foldl_revertT [of "Tally s"] by blast
  have b: "dom (Tally s) - {T} \<subseteq> dom (Tally s)" by blast
  have c: "filter_mset (\<lambda>v. Validator v \<noteq> T \<and> Address v \<noteq> T) (mset (Votes s))
           \<subseteq># mset (Votes s)" by (rule multiset_filter_subset)
  have d: "filter_mset (\<lambda>v. Address v \<noteq> T) (mset (Votes s)) \<subseteq># mset (Votes s)"
    by (rule multiset_filter_subset)
  show ?thesis
    using a b c d by (simp add: resolve_eq resolved_def filter_filter_mset)
qed

lemma noop_fold_shrinks:
  assumes "\<not> checkVote s T a"
  shows "dom (Tally (resolve (afterCast s S n T a) T)) \<subseteq> dom (Tally s) \<and>
         mset (Votes (resolve (afterCast s S n T a) T)) \<subseteq># mset (Votes s)"
proof -
  define s1 where "s1 = discardPrevious (checkpoint s n) S T 0"
  have "ValSet s1 = ValSet s"
    by (simp add: s1_def ValSet_discardPrevious ValSet_checkpoint)
  then have "\<not> checkVote s1 T a" using assms by (simp add: checkVote_iff)
  then have ac: "afterCast s S n T a = s1"
    by (simp add: afterCast_def s1_def castVote_eq)
  have 1: "dom (Tally s1) \<subseteq> dom (Tally s)" "mset (Votes s1) \<subseteq># mset (Votes s)"
    using discardPrevious_shrinks [of "checkpoint s n" S T] checkpoint_shrinks [of s n]
    unfolding s1_def by (blast intro: subset_mset.order_trans)+
  show ?thesis
    unfolding ac using resolve_shrinks [of s1 T] 1
    by (blast intro: subset_mset.order_trans)
qed

text \<open>C5. \<open>checkVote\<close> accepts a vote exactly when it would change the authorization of the
  target: an authorize vote for an address that is not a validator, or a deauthorize vote
  for a validator. A vote it rejects leaves the snapshot as it is in \<open>cast\<close> (no tally
  entry is created) and is not appended to the log; folding a header with such a vote
  adds no tally entry and no log entry to the snapshot.\<close>

theorem noop_vote_changes_nothing:
  "checkVote s T a =
     ((a \<and> GetByAddress (ValSet s) T = None) \<or> (\<not> a \<and> GetByAddress (ValSet s) T \<noteq> None)) \<and>
   (GetByAddress (ValSet s) T \<noteq> None) = (T \<in> members (ValSet s)) \<and>
   (\<not> checkVote s T a \<longrightarrow>
      cast s T a = (s, False) \<and> castVote s S n T a = s \<and>
      dom (Tally (resolve (afterCast s S n T a) T)) \<subseteq> dom (Tally s) \<and>
      mset (Votes (resolve (afterCast s S n T a) T)) \<subseteq># mset (Votes s))"
proof (intro conjI impI)
  show "checkVote s T a =
     ((a \<and> GetByAddress (ValSet s) T = None) \<or> (\<not> a \<and> GetByAddress (ValSet s) T \<noteq> None))"
    by (auto simp: checkVote_def)
  show "(GetByAddress (ValSet s) T \<noteq> None) = (T \<in> members (ValSet s))"
    by (simp add: GetByAddress_def)
next
  assume n: "\<not> checkVote s T a"
  show "cast s T a = (s, False)" using n by (simp add: cast_def)
  show "castVote s S n T a = s" using n by (simp add: castVote_eq)
  show "dom (Tally (resolve (afterCast s S n T a) T)) \<subseteq> dom (Tally s)"
    and "mset (Votes (resolve (afterCast s S n T a) T)) \<subseteq># mset (Votes s)"
    using noop_fold_shrinks [OF n] by simp_all
qed

definition exAdded :: snapshot where
  "exAdded = \<lparr>Epoch = 30000, Number = 100, Hash = 0, Votes = [], Tally = Map.empty,
              ValSet = \<lparr>members = {1, 2}, policyId = 0\<rparr>\<rparr>"

theorem noop_vote_changes_nothing_witness:
  "\<not> checkVote exAdded 2 True \<and> cast exAdded 2 True = (exAdded, False) \<and>
   castVote exAdded 1 102 2 True = exAdded \<and>
   legacyApply exParams exAdded (exHeader 102 1 2 True) = Inr exAdded"
proof -
  have n: "\<not> checkVote exAdded 2 True" by (simp add: checkVote_iff exAdded_def)
  from noop_vote_changes_nothing [of exAdded 2 True 1 102]
  have "cast exAdded 2 True = (exAdded, False) \<and> castVote exAdded 1 102 2 True = exAdded"
    using n by simp
  moreover have "legacyApply exParams exAdded (exHeader 102 1 2 True) = Inr exAdded"
    by (simp add: ex_defs fold_eval exAdded_def)
  ultimately show ?thesis using n by simp
qed


section \<open>Checkpoint blocks\<close>

lemma checkpoint_reset:
  "n mod Epoch s = 0 \<Longrightarrow> checkpoint s n = s\<lparr>Votes := [], Tally := Map.empty\<rparr>"
  by (simp add: checkpoint_def)

lemma checkpoint_idem:
  "n mod Epoch s = 0 \<Longrightarrow> checkpoint (s\<lparr>Votes := [], Tally := Map.empty\<rparr>) n = checkpoint s n"
  by (simp add: checkpoint_def)

lemma afterCast_checkpoint:
  assumes "n mod Epoch s = 0"
  shows "afterCast s S n T a = castVote (s\<lparr>Votes := [], Tally := Map.empty\<rparr>) S n T a"
  by (simp add: afterCast_def checkpoint_reset [OF assms] discardPrevious_0)

text \<open>C6. When the epoch is positive and the number of the header is a multiple of the
  epoch, both folds give the result they give on the snapshot with the vote log and the
  tally emptied; the vote of the header is cast into the emptied state: if \<open>checkVote\<close>
  accepts it, the state on which the majority check runs holds this vote as its only log
  entry and a tally entry of count 1 for its target as its only tally entry.\<close>

theorem epoch_amnesty:
  assumes "Epoch s \<noteq> 0" and "HeaderNumber hdr mod Epoch s = 0"
  shows "legacyApply K s hdr = legacyApply K (s\<lparr>Votes := [], Tally := Map.empty\<rparr>) hdr \<and>
         qbftApply K s hdr = qbftApply K (s\<lparr>Votes := [], Tally := Map.empty\<rparr>) hdr \<and>
         afterCast s S (HeaderNumber hdr) T a =
           castVote (s\<lparr>Votes := [], Tally := Map.empty\<rparr>) S (HeaderNumber hdr) T a \<and>
         (checkVote s T a \<longrightarrow>
            Votes (afterCast s S (HeaderNumber hdr) T a) =
              [\<lparr>Validator = S, Block = HeaderNumber hdr, Address = T, Authorize = a\<rparr>] \<and>
            Tally (afterCast s S (HeaderNumber hdr) T a) =
              [T \<mapsto> \<lparr>TallyAuthorize = a, TallyVotes = 1\<rparr>])"
proof (intro conjI impI)
  note c = checkpoint_idem [OF assms(2)]
  show "legacyApply K s hdr = legacyApply K (s\<lparr>Votes := [], Tally := Map.empty\<rparr>) hdr"
    by (simp add: legacyApply_def Let_def c)
  show "qbftApply K s hdr = qbftApply K (s\<lparr>Votes := [], Tally := Map.empty\<rparr>) hdr"
    by (simp add: qbftApply_def Let_def c)
  show ac: "afterCast s S (HeaderNumber hdr) T a =
           castVote (s\<lparr>Votes := [], Tally := Map.empty\<rparr>) S (HeaderNumber hdr) T a"
    by (rule afterCast_checkpoint [OF assms(2)])
  assume cv: "checkVote s T a"
  then have cv': "checkVote (s\<lparr>Votes := [], Tally := Map.empty\<rparr>) T a"
    by (simp add: checkVote_iff)
  show "Votes (afterCast s S (HeaderNumber hdr) T a) =
              [\<lparr>Validator = S, Block = HeaderNumber hdr, Address = T, Authorize = a\<rparr>]"
    unfolding ac using cv' by (simp add: castVote_eq)
  show "Tally (afterCast s S (HeaderNumber hdr) T a) =
              [T \<mapsto> \<lparr>TallyAuthorize = a, TallyVotes = 1\<rparr>]"
    unfolding ac using cv' by (simp add: castVote_eq newTally_def)
qed

definition exStale :: snapshot where
  "exStale =
     \<lparr>Epoch = 30000, Number = 59999, Hash = 0,
      Votes = [exVote 1 59998 5 True, exVote 2 59999 6 True],
      Tally = [5 \<mapsto> \<lparr>TallyAuthorize = True, TallyVotes = 1\<rparr>,
               6 \<mapsto> \<lparr>TallyAuthorize = True, TallyVotes = 1\<rparr>],
      ValSet = \<lparr>members = {1, 2, 3, 4}, policyId = 0\<rparr>\<rparr>"

theorem epoch_amnesty_witness:
  "Epoch exStale \<noteq> 0 \<and> HeaderNumber (exHeader 60000 3 5 True) mod Epoch exStale = 0 \<and>
   checkVote exStale 5 True \<and>
   Votes (afterCast exStale 3 60000 5 True) = [exVote 3 60000 5 True] \<and>
   legacyApply exParams exStale (exHeader 60000 3 5 True) =
     Inr (exStale\<lparr>Votes := [exVote 3 60000 5 True],
                  Tally := [5 \<mapsto> \<lparr>TallyAuthorize = True, TallyVotes = 1\<rparr>]\<rparr>)"
proof -
  have e: "Epoch exStale \<noteq> 0" by (simp add: exStale_def)
  have m: "HeaderNumber (exHeader 60000 3 5 True) mod Epoch exStale = 0"
    by (simp add: exStale_def exHeader_def)
  have n: "HeaderNumber (exHeader 60000 3 5 True) = 60000" by (simp add: exHeader_def)
  have c: "checkVote exStale 5 True" by (simp add: checkVote_iff exStale_def)
  note inst = epoch_amnesty [OF e m, of exParams 3 5 True, unfolded n]
  have v: "Votes (afterCast exStale 3 60000 5 True) = [exVote 3 60000 5 True]"
    using inst [THEN conjunct2, THEN conjunct2, THEN conjunct2, rule_format, OF c]
    by (simp add: exVote_def)
  have "legacyApply exParams (exStale\<lparr>Votes := [], Tally := Map.empty\<rparr>)
          (exHeader 60000 3 5 True) =
        Inr (exStale\<lparr>Votes := [exVote 3 60000 5 True],
                  Tally := [5 \<mapsto> \<lparr>TallyAuthorize = True, TallyVotes = 1\<rparr>]\<rparr>)"
    by (simp add: ex_defs fold_eval exStale_def)
  then have "legacyApply exParams exStale (exHeader 60000 3 5 True) =
        Inr (exStale\<lparr>Votes := [exVote 3 60000 5 True],
                  Tally := [5 \<mapsto> \<lparr>TallyAuthorize = True, TallyVotes = 1\<rparr>]\<rparr>)"
    using inst [THEN conjunct1] by simp
  then show ?thesis using e m c v by simp
qed


section \<open>The structured vote\<close>

text \<open>C8 as amended. For a header folded under the structured-vote strategy on a snapshot
  with a non-zero epoch, whose signer is recovered and is a current validator: if the
  extension data cannot be decoded the fold fails with \<open>errInvalidExtraDataFormat\<close>; if
  the embedded vote has a type tag that is neither the authorize tag nor the deauthorize
  tag the fold fails with \<open>errInvalidVote\<close>. For every header whose extension data
  decodes with no embedded vote, the fold is the fold of the same header carrying an
  explicit deauthorize vote against the zero address.\<close>

theorem qbft_vote_decoding:
  "(Epoch s \<noteq> 0 \<longrightarrow> ecrecoverFromCoinbase hdr = Inr validator \<longrightarrow>
      validator \<in> members (ValSet s) \<longrightarrow>
        (\<forall>err. ExtractQbftExtra hdr = Inl err \<longrightarrow>
           qbftApply K s hdr = Inl errInvalidExtraDataFormat) \<and>
        (\<forall>v. ExtractQbftExtra hdr = Inr (Some v) \<longrightarrow> VoteType v \<noteq> QbftAuthVote K \<longrightarrow>
           VoteType v \<noteq> QbftDropVote K \<longrightarrow> qbftApply K s hdr = Inl errInvalidVote)) \<and>
   (ExtractQbftExtra hdr = Inr None \<longrightarrow>
      qbftApply K s hdr =
        qbftApply K s
          (hdr\<lparr>ExtractQbftExtra :=
                 Inr (Some \<lparr>RecipientAddress = 0, VoteType = QbftDropVote K\<rparr>)\<rparr>))"
proof (intro conjI impI allI)
  fix err
  assume "Epoch s \<noteq> 0" "ecrecoverFromCoinbase hdr = Inr validator"
    "validator \<in> members (ValSet s)" "ExtractQbftExtra hdr = Inl err"
  then show "qbftApply K s hdr = Inl errInvalidExtraDataFormat"
    by (simp add: qbftApply_def Let_def GetByAddress_def ValSet_checkpoint)
next
  fix v
  assume "Epoch s \<noteq> 0" "ecrecoverFromCoinbase hdr = Inr validator"
    "validator \<in> members (ValSet s)" "ExtractQbftExtra hdr = Inr (Some v)"
    "VoteType v \<noteq> QbftAuthVote K" "VoteType v \<noteq> QbftDropVote K"
  then show "qbftApply K s hdr = Inl errInvalidVote"
    by (simp add: qbftApply_def Let_def GetByAddress_def ValSet_checkpoint)
next
  assume "ExtractQbftExtra hdr = Inr None"
  then show "qbftApply K s hdr =
        qbftApply K s
          (hdr\<lparr>ExtractQbftExtra :=
                 Inr (Some \<lparr>RecipientAddress = 0, VoteType = QbftDropVote K\<rparr>)\<rparr>)"
    by (cases "ecrecoverFromCoinbase hdr") (simp_all add: qbftApply_def Let_def)
qed

text \<open>C8 as stated fails: a header whose extension data cannot be decoded and whose signer
  is not a validator fails with \<open>errUnauthorized\<close>, since the signer is checked first.\<close>

theorem qbft_undecodable_extra_counterexample:
  "ExtractQbftExtra
     ((exHeader 101 9 5 True)\<lparr>ExtractQbftExtra := Inl (errExternal ''rlp'')\<rparr>) =
     Inl (errExternal ''rlp'') \<and>
   qbftApply exParams (exGenesis {1, 2, 3, 4})
     ((exHeader 101 9 5 True)\<lparr>ExtractQbftExtra := Inl (errExternal ''rlp'')\<rparr>) =
     Inl errUnauthorized"
  by (simp add: ex_defs fold_eval)

theorem qbft_vote_decoding_witness:
  "Epoch (exGenesis {1, 2, 3, 4}) \<noteq> 0 \<and>
   qbftApply exParams (exGenesis {1, 2, 3, 4})
     ((exHeader 101 1 5 True)\<lparr>ExtractQbftExtra := Inl (errExternal ''rlp'')\<rparr>) =
     Inl errInvalidExtraDataFormat \<and>
   qbftApply exParams (exGenesis {1, 2, 3, 4})
     ((exHeader 101 1 5 True)\<lparr>ExtractQbftExtra :=
        Inr (Some \<lparr>RecipientAddress = 5, VoteType = 7\<rparr>)\<rparr>) = Inl errInvalidVote \<and>
   qbftApply exParams (exGenesis {1, 2, 3, 4})
     ((exHeader 101 1 5 True)\<lparr>ExtractQbftExtra := Inr None\<rparr>) =
     Inr (exGenesis {1, 2, 3, 4})"
proof -
  define h where "h = exHeader 101 1 5 True"
  have e: "Epoch (exGenesis {1, 2, 3, 4}) \<noteq> 0" by (simp add: ex_defs)
  have r: "ecrecoverFromCoinbase (h\<lparr>ExtractQbftExtra := x\<rparr>) = Inr 1" for x
    by (simp add: h_def ex_defs)
  have m: "1 \<in> members (ValSet (exGenesis {1, 2, 3, 4}))" by (simp add: ex_defs)
  have 1: "qbftApply exParams (exGenesis {1, 2, 3, 4})
            (h\<lparr>ExtractQbftExtra := Inl (errExternal ''rlp'')\<rparr>) = Inl errInvalidExtraDataFormat"
    using qbft_vote_decoding [of "exGenesis {1, 2, 3, 4}"
        "h\<lparr>ExtractQbftExtra := Inl (errExternal ''rlp'')\<rparr>" 1 exParams] e r m
    by simp
  have 2: "qbftApply exParams (exGenesis {1, 2, 3, 4})
            (h\<lparr>ExtractQbftExtra := Inr (Some \<lparr>RecipientAddress = 5, VoteType = 7\<rparr>)\<rparr>)
            = Inl errInvalidVote"
    using qbft_vote_decoding [of "exGenesis {1, 2, 3, 4}"
        "h\<lparr>ExtractQbftExtra := Inr (Some \<lparr>RecipientAddress = 5, VoteType = 7\<rparr>)\<rparr>"
        1 exParams] e r m
    by (simp add: exParams_def)
  have "qbftApply exParams (exGenesis {1, 2, 3, 4})
          (h\<lparr>ExtractQbftExtra :=
                 Inr (Some \<lparr>RecipientAddress = 0, VoteType = QbftDropVote exParams\<rparr>)\<rparr>)
        = Inr (exGenesis {1, 2, 3, 4})"
    by (simp add: h_def ex_defs fold_eval)
  then have 3: "qbftApply exParams (exGenesis {1, 2, 3, 4}) (h\<lparr>ExtractQbftExtra := Inr None\<rparr>)
        = Inr (exGenesis {1, 2, 3, 4})"
    using qbft_vote_decoding [of "exGenesis {1, 2, 3, 4}" "h\<lparr>ExtractQbftExtra := Inr None\<rparr>"
        1 exParams]
    by simp
  show ?thesis using e 1 2 3 unfolding h_def by simp
qed


section \<open>Majority resolution\<close>

lemma resolved_facts:
  "(TallyAuthorize (tallyOf c T) \<longrightarrow>
      ValSet (resolved c T) = AddValidator (ValSet c) T \<and>
      T \<in> members (ValSet (resolved c T)) \<and>
      Votes (resolved c T) = filter (\<lambda>v. Address v \<noteq> T) (Votes c) \<and>
      Tally (resolved c T) = (Tally c)(T := None)) \<and>
   (\<not> TallyAuthorize (tallyOf c T) \<longrightarrow>
      ValSet (resolved c T) = RemoveValidator (ValSet c) T \<and>
      T \<notin> members (ValSet (resolved c T)) \<and>
      Votes (resolved c T) = filter (\<lambda>v. Validator v \<noteq> T \<and> Address v \<noteq> T) (Votes c) \<and>
      Tally (resolved c T) =
        (Tally (foldl revert c (filter (\<lambda>v. Validator v = T) (Votes c))))(T := None))"
  by (auto simp: resolved_def AddValidator_def RemoveValidator_def foldl_revert_eq
      intro: filter_cong)

text \<open>C1. Both folds, when they succeed, end with the majority check on the state
  \<open>afterCast\<close> in which the vote of the header has been cast, for the target the header
  names. The check resolves the target exactly when its tally count there is greater
  than half the size of the validator set, rounded down; otherwise the state is left as
  it is, in particular when the count is exactly half the size. On resolution the target
  is added to the validator set when the intent of its tally entry is authorize, and
  removed otherwise; on removal every log entry cast by the target is deleted and
  reverted through \<open>uncast\<close>, in log order; in both cases every log entry left that
  targets the address is deleted, and so is the tally entry of the target.\<close>

theorem majority_resolution:
  "(legacyApply K s hdr = Inr s' \<longrightarrow>
      (\<exists>validator authorize.
         s' = resolve (afterCast s validator (HeaderNumber hdr) (Coinbase hdr) authorize)
                (Coinbase hdr))) \<and>
   (qbftApply K s hdr = Inr s' \<longrightarrow>
      (\<exists>validator authorize qbftVote.
         ExtractQbftExtra hdr = Inr qbftVote \<and>
         s' = resolve
                (afterCast s validator (HeaderNumber hdr)
                   (case qbftVote of None \<Rightarrow> 0 | Some v \<Rightarrow> RecipientAddress v) authorize)
                (case qbftVote of None \<Rightarrow> 0 | Some v \<Rightarrow> RecipientAddress v))) \<and>
   resolve c T =
     (if Size (ValSet c) div 2 < TallyVotes (tallyOf c T) then resolved c T else c) \<and>
   (2 * TallyVotes (tallyOf c T) = Size (ValSet c) \<longrightarrow> resolve c T = c) \<and>
   (TallyAuthorize (tallyOf c T) \<longrightarrow>
      ValSet (resolved c T) = AddValidator (ValSet c) T \<and>
      T \<in> members (ValSet (resolved c T)) \<and>
      Votes (resolved c T) = filter (\<lambda>v. Address v \<noteq> T) (Votes c) \<and>
      Tally (resolved c T) = (Tally c)(T := None)) \<and>
   (\<not> TallyAuthorize (tallyOf c T) \<longrightarrow>
      ValSet (resolved c T) = RemoveValidator (ValSet c) T \<and>
      T \<notin> members (ValSet (resolved c T)) \<and>
      Votes (resolved c T) = filter (\<lambda>v. Validator v \<noteq> T \<and> Address v \<noteq> T) (Votes c) \<and>
      Tally (resolved c T) =
        (Tally (foldl revert c (filter (\<lambda>v. Validator v = T) (Votes c))))(T := None))"
proof -
  have 1: "legacyApply K s hdr = Inr s' \<longrightarrow>
      (\<exists>validator authorize.
         s' = resolve (afterCast s validator (HeaderNumber hdr) (Coinbase hdr) authorize)
                (Coinbase hdr))"
    using legacyApply_InrD [of K s hdr s'] by blast
  have 2: "qbftApply K s hdr = Inr s' \<longrightarrow>
      (\<exists>validator authorize qbftVote.
         ExtractQbftExtra hdr = Inr qbftVote \<and>
         s' = resolve
                (afterCast s validator (HeaderNumber hdr)
                   (case qbftVote of None \<Rightarrow> 0 | Some v \<Rightarrow> RecipientAddress v) authorize)
                (case qbftVote of None \<Rightarrow> 0 | Some v \<Rightarrow> RecipientAddress v))"
  proof
    assume "qbftApply K s hdr = Inr s'"
    from qbftApply_InrD [OF this] obtain validator qbftVote validatorVote authorize where
      q: "ExtractQbftExtra hdr = Inr qbftVote"
      and v: "validatorVote = (case qbftVote of
                              None \<Rightarrow> \<lparr>RecipientAddress = 0, VoteType = QbftDropVote K\<rparr>
                            | Some v \<Rightarrow> v)"
      and s': "s' = resolve (afterCast s validator (HeaderNumber hdr)
                           (RecipientAddress validatorVote) authorize)
                  (RecipientAddress validatorVote)"
      by blast
    have "RecipientAddress validatorVote =
            (case qbftVote of None \<Rightarrow> 0 | Some v \<Rightarrow> RecipientAddress v)"
      by (simp add: v split: option.split)
    then show "\<exists>validator authorize qbftVote.
         ExtractQbftExtra hdr = Inr qbftVote \<and>
         s' = resolve
                (afterCast s validator (HeaderNumber hdr)
                   (case qbftVote of None \<Rightarrow> 0 | Some v \<Rightarrow> RecipientAddress v) authorize)
                (case qbftVote of None \<Rightarrow> 0 | Some v \<Rightarrow> RecipientAddress v)"
      using q s' by auto
  qed
  have 3: "resolve c T =
     (if Size (ValSet c) div 2 < TallyVotes (tallyOf c T) then resolved c T else c)"
    by (simp add: resolve_eq passed_def)
  have 4: "2 * TallyVotes (tallyOf c T) = Size (ValSet c) \<longrightarrow> resolve c T = c"
    by (simp add: resolve_eq passed_def)
  note 5 = resolved_facts [of c T, THEN conjunct1] and 6 = resolved_facts [of c T, THEN conjunct2]
  show ?thesis by (rule conjI [OF 1 conjI [OF 2 conjI [OF 3 conjI [OF 4 conjI [OF 5 6]]]]])
qed


definition exHalf :: snapshot where
  "exHalf = exAdded\<lparr>Votes := [exVote 1 102 2 False],
                     Tally := [2 \<mapsto> \<lparr>TallyAuthorize = False, TallyVotes = 1\<rparr>]\<rparr>"

definition exDrop :: snapshot where
  "exDrop =
     \<lparr>Epoch = 30000, Number = 103, Hash = 0,
      Votes = [exVote 3 101 5 True, exVote 1 102 3 False, exVote 2 103 3 False],
      Tally = [5 \<mapsto> \<lparr>TallyAuthorize = True, TallyVotes = 1\<rparr>,
               3 \<mapsto> \<lparr>TallyAuthorize = False, TallyVotes = 2\<rparr>],
      ValSet = \<lparr>members = {1, 2, 3}, policyId = 0\<rparr>\<rparr>"

theorem majority_resolution_witness:
  "legacyApply exParams (exGenesis {1}) (exHeader 101 1 2 True) = Inr exAdded \<and>
   qbftApply exParams (exGenesis {1}) (exHeader 101 1 2 True) = Inr exAdded \<and>
   legacyApply exParams exAdded (exHeader 102 1 2 False) = Inr exHalf \<and>
   2 * TallyVotes (tallyOf exHalf 2) = Size (ValSet exHalf) \<and>
   resolve exHalf 2 = exHalf \<and>
   \<not> TallyAuthorize (tallyOf exDrop 3) \<and>
   Size (ValSet exDrop) div 2 < TallyVotes (tallyOf exDrop 3) \<and>
   members (ValSet (resolve exDrop 3)) = {1, 2} \<and>
   Votes (resolve exDrop 3) = [] \<and>
   Tally (resolve exDrop 3) 5 = None \<and> Tally (resolve exDrop 3) 3 = None"
proof -
  have a: "legacyApply exParams (exGenesis {1}) (exHeader 101 1 2 True) = Inr exAdded"
    by (simp add: ex_defs fold_eval exAdded_def insert_commute)
  have b: "qbftApply exParams (exGenesis {1}) (exHeader 101 1 2 True) = Inr exAdded"
    by (simp add: ex_defs fold_eval exAdded_def insert_commute)
  have c: "legacyApply exParams exAdded (exHeader 102 1 2 False) = Inr exHalf"
    by (simp add: ex_defs fold_eval exAdded_def exHalf_def)
  have h: "2 * TallyVotes (tallyOf exHalf 2) = Size (ValSet exHalf)"
    by (simp add: exHalf_def exAdded_def tallyOf_def Size_def)
  note half = majority_resolution [of exParams exAdded "exHeader 102 1 2 False" exHalf exHalf 2]
  note drop = majority_resolution [of exParams exAdded "exHeader 102 1 2 False" exHalf exDrop 3]
  have r: "resolve exHalf 2 = exHalf" using half h by blast
  have na: "\<not> TallyAuthorize (tallyOf exDrop 3)"
    and p: "Size (ValSet exDrop) div 2 < TallyVotes (tallyOf exDrop 3)"
    by (simp_all add: exDrop_def tallyOf_def Size_def)
  have e: "resolve exDrop 3 = resolved exDrop 3" using drop p by simp
  have "members (ValSet (resolved exDrop 3)) = {1, 2} \<and>
        Votes (resolved exDrop 3) = [] \<and>
        Tally (resolved exDrop 3) 5 = None \<and> Tally (resolved exDrop 3) 3 = None"
    using drop [THEN conjunct2, THEN conjunct2, THEN conjunct2, THEN conjunct2,
        THEN conjunct2, rule_format, OF na]
    by (simp add: RemoveValidator_def exDrop_def exVote_def revert_eq revertT_eq
        insert_Diff_if)
  then show ?thesis using a b c h r na p unfolding e by simp
qed


section \<open>Serialization\<close>

text \<open>The inner loop of \<open>validators\<close>: \<open>for j := i + 1; j < len(validators); j++\<close>, with
  \<open>bytes.Compare(validators[i][:], validators[j][:]) > 0\<close> the order of the words.\<close>

function sortInner :: "address list \<Rightarrow> nat \<Rightarrow> nat \<Rightarrow> address list" where
  "sortInner vs i j =
     (if j < length vs then
        sortInner (if vs ! i > vs ! j then vs[i := vs ! j, j := vs ! i] else vs) i (j + 1)
      else vs)"
  by pat_completeness auto
termination
  by (relation "measure (\<lambda>(vs, i, j). length vs - j)") auto

declare sortInner.simps [simp del]

lemma length_sortInner: "length (sortInner vs i j) = length vs"
proof (induction vs i j rule: sortInner.induct)
  case (1 vs i j)
  show ?case
  proof (cases "j < length vs")
    case True
    then show ?thesis using 1 by (subst sortInner.simps) simp
  next
    case False
    then show ?thesis by (subst sortInner.simps) simp
  qed
qed

text \<open>The outer loop of \<open>validators\<close>: \<open>for i := 0; i < len(validators); i++\<close>.\<close>

function sortOuter :: "address list \<Rightarrow> nat \<Rightarrow> address list" where
  "sortOuter vs i =
     (if i < length vs then sortOuter (sortInner vs i (i + 1)) (i + 1) else vs)"
  by pat_completeness auto
termination
  by (relation "measure (\<lambda>(vs, i). length vs - i)") (auto simp: length_sortInner)

declare sortOuter.simps [simp del]

text \<open>\<open>validators\<close>. \<open>ListOf\<close> is \<open>s.ValSet.List()\<close> with the address taken of every element:
  the listing of the validator set in the order of its policy, which this file does not
  decide. The first loop copies the listing, the two nested loops sort the copy.\<close>

definition validators :: "(validatorSet \<Rightarrow> address list) \<Rightarrow> snapshot \<Rightarrow> address list" where
  "validators ListOf s = sortOuter (ListOf (ValSet s)) 0"

text \<open>\<open>type snapshotJSON struct\<close>.\<close>

record snapshotJSON =
  jsonEpoch :: uint64
  jsonNumber :: uint64
  jsonHash :: hash
  jsonVotes :: "vote list"
  jsonTally :: "address \<rightharpoonup> tally"
  jsonValidators :: "address list"
  jsonPolicy :: uint64

definition toJSONStruct :: "(validatorSet \<Rightarrow> address list) \<Rightarrow> snapshot \<Rightarrow> snapshotJSON" where
  "toJSONStruct ListOf s =
     \<lparr>jsonEpoch = Epoch s, jsonNumber = Number s, jsonHash = Hash s, jsonVotes = Votes s,
      jsonTally = Tally s, jsonValidators = validators ListOf s,
      jsonPolicy = Policy (ValSet s)\<rparr>"

text \<open>\<open>MarshalJSON\<close> and \<open>UnmarshalJSON\<close>. \<open>json.Marshal\<close> and \<open>json.Unmarshal\<close> of the
  standard library are parameters: \<open>jsonMarshal\<close> encodes a \<open>snapshotJSON\<close> record or
  fails, \<open>jsonUnmarshal\<close> decodes one or fails. \<open>UnmarshalJSON\<close> overwrites the six fields
  of its receiver.\<close>

definition MarshalJSON ::
  "(snapshotJSON \<Rightarrow> error + 'b) \<Rightarrow> (validatorSet \<Rightarrow> address list) \<Rightarrow> snapshot \<Rightarrow> error + 'b" where
  "MarshalJSON jsonMarshal ListOf s = jsonMarshal (toJSONStruct ListOf s)"

definition UnmarshalJSON ::
  "('b \<Rightarrow> error + snapshotJSON) \<Rightarrow> snapshot \<Rightarrow> 'b \<Rightarrow> error + snapshot" where
  "UnmarshalJSON jsonUnmarshal s b =
     (case jsonUnmarshal b of
        Inl err \<Rightarrow> Inl err
      | Inr j \<Rightarrow>
          Inr (s\<lparr>Epoch := jsonEpoch j, Number := jsonNumber j, Hash := jsonHash j,
                 Votes := jsonVotes j, Tally := jsonTally j,
                 ValSet := NewSet (jsonValidators j) (jsonPolicy j)\<rparr>))"

text \<open>A codec for the concrete runs: the encoding of a record is the record in a box,
  and the empty box does not decode. A listing that is not in ascending order.\<close>

definition exMarshal :: "snapshotJSON \<Rightarrow> error + snapshotJSON option" where
  "exMarshal j = Inr (Some j)"

definition exUnmarshal :: "snapshotJSON option \<Rightarrow> error + snapshotJSON" where
  "exUnmarshal b =
     (case b of None \<Rightarrow> Inl (errExternal ''unexpected end of JSON input'') | Some j \<Rightarrow> Inr j)"

definition exList :: "validatorSet \<Rightarrow> address list" where
  "exList V = [3, 1, 4, 2]"

text \<open>The inner loop leaves the positions before \<open>i\<close> alone, permutes the rest and puts
  a least element of the positions from \<open>i\<close> on at \<open>i\<close>.\<close>

lemma sortInner_spec:
  assumes "i < j" "\<forall>k. i < k \<and> k < j \<longrightarrow> vs ! i \<le> vs ! k"
  shows "take i (sortInner vs i j) = take i vs \<and>
         mset (sortInner vs i j) = mset vs \<and>
         (\<forall>k. i < k \<and> k < length vs \<longrightarrow> sortInner vs i j ! i \<le> sortInner vs i j ! k)"
  using assms
proof (induction vs i j rule: sortInner.induct)
  case (1 vs i j)
  show ?case
  proof (cases "j < length vs")
    case False
    then have "sortInner vs i j = vs" by (subst sortInner.simps) simp
    then show ?thesis using 1(3) False by auto
  next
    case lt: True
    define vs' where "vs' = (if vs ! i > vs ! j then vs[i := vs ! j, j := vs ! i] else vs)"
    have e: "sortInner vs i j = sortInner vs' i (j + 1)"
      using lt by (subst sortInner.simps) (simp add: vs'_def)
    have len: "length vs' = length vs" by (simp add: vs'_def)
    have il: "i < length vs" using 1(2) lt by simp
    have tk: "take i vs' = take i vs"
      using 1(2) by (simp add: vs'_def)
    have ms: "mset vs' = mset vs"
      using mset_swap [of j vs i] il lt by (simp add: vs'_def)
    have pre: "\<forall>k. i < k \<and> k < j + 1 \<longrightarrow> vs' ! i \<le> vs' ! k"
    proof (intro allI impI)
      fix k assume k: "i < k \<and> k < j + 1"
      show "vs' ! i \<le> vs' ! k"
      proof (cases "vs ! i > vs ! j")
        case False
        then have "vs' = vs" by (simp add: vs'_def)
        then show ?thesis using 1(3) k False by (cases "k = j") auto
      next
        case True
        then have v: "vs' = vs[i := vs ! j, j := vs ! i]" by (simp add: vs'_def)
        have i': "vs' ! i = vs ! j" using 1(2) il lt by (simp add: v)
        show ?thesis
        proof (cases "k = j")
          case True
          then have "vs' ! k = vs ! i" using lt by (simp add: v)
          then show ?thesis using i' \<open>vs ! i > vs ! j\<close> by simp
        next
          case False
          then have kj: "k < j" using k by simp
          then have "vs' ! k = vs ! k" using k by (simp add: v)
          moreover have "vs ! i \<le> vs ! k" using 1(3) k kj by blast
          ultimately show ?thesis using i' \<open>vs ! i > vs ! j\<close> by simp
        qed
      qed
    qed
    have "i < j + 1" using 1(2) by simp
    from 1(1) [OF lt this, folded vs'_def, OF pre]
    show ?thesis unfolding e using tk ms len by simp
  qed
qed


lemma sortOuter_spec:
  assumes "sorted (take i vs)" "\<forall>x \<in> set (take i vs). \<forall>y \<in> set (drop i vs). x \<le> y"
  shows "sorted (sortOuter vs i) \<and> mset (sortOuter vs i) = mset vs"
  using assms
proof (induction vs i rule: sortOuter.induct)
  case (1 vs i)
  show ?case
  proof (cases "i < length vs")
    case False
    then have "sortOuter vs i = vs" by (subst sortOuter.simps) simp
    then show ?thesis using 1(2) False by simp
  next
    case lt: True
    define r where "r = sortInner vs i (i + 1)"
    have e: "sortOuter vs i = sortOuter r (i + 1)"
      using lt by (subst sortOuter.simps) (simp add: r_def)
    have "\<forall>k. i < k \<and> k < i + 1 \<longrightarrow> vs ! i \<le> vs ! k" by auto
    from sortInner_spec [OF _ this]
    have sp: "take i r = take i vs" "mset r = mset vs"
      "\<forall>k. i < k \<and> k < length vs \<longrightarrow> r ! i \<le> r ! k"
      unfolding r_def by simp_all
    have len: "length r = length vs" by (simp add: r_def length_sortInner)
    have "mset (take i r) + mset (drop i r) = mset (take i vs) + mset (drop i vs)"
      using sp(2) by (simp only: union_code append_take_drop_id)
    then have md: "mset (drop i r) = mset (drop i vs)" using sp(1) by simp
    then have sd: "set (drop i r) = set (drop i vs)" by (rule mset_eq_setD)
    have ri: "r ! i \<in> set (drop i r)"
      unfolding drop_nth [of i r, OF lt [folded len]] by simp
    have ir: "i < length r" using lt len by simp
    have t1: "take (i + 1) r = take i vs @ [r ! i]"
      unfolding take_next [OF ir] sp(1) ..
    have s1: "sorted (take (i + 1) r)"
      unfolding t1 using 1(2,3) ri sd by (auto simp: sorted_append)
    have d1: "set (drop (i + 1) r) \<subseteq> set (drop i r)"
      by (simp add: set_drop_subset_set_drop)
    have b1: "\<forall>x \<in> set (take (i + 1) r). \<forall>y \<in> set (drop (i + 1) r). x \<le> y"
    proof (intro ballI)
      fix x y assume x: "x \<in> set (take (i + 1) r)" and y: "y \<in> set (drop (i + 1) r)"
      from y obtain k where k: "k < length (drop (i + 1) r)" "y = drop (i + 1) r ! k"
        by (auto simp: in_set_conv_nth)
      then have yk: "y = r ! (i + 1 + k)" "i + 1 + k < length vs"
        using len by auto
      from x have "x \<in> set (take i vs) \<or> x = r ! i" unfolding t1 by auto
      then show "x \<le> y"
      proof
        assume "x \<in> set (take i vs)"
        moreover have "y \<in> set (drop i vs)" using y d1 sd by blast
        ultimately show ?thesis using 1(3) by blast
      next
        assume "x = r ! i"
        then show ?thesis using sp(3) yk by simp
      qed
    qed
    from 1(1) [OF lt, folded r_def, OF s1 b1]
    show ?thesis unfolding e using sp(2) by simp
  qed
qed

lemma validators_sorted:
  "sorted (validators ListOf s) \<and> mset (validators ListOf s) = mset (ListOf (ValSet s))"
  using sortOuter_spec [of 0 "ListOf (ValSet s)"] by (simp add: validators_def)

text \<open>C7. Let \<open>json.Unmarshal\<close> decode every encoding \<open>json.Marshal\<close> produces back into the
  record that was encoded, and let the listing of the validator set of the snapshot hold
  exactly its members. Then for the bytes \<open>MarshalJSON\<close> returns for a snapshot,
  \<open>UnmarshalJSON\<close> on any receiver succeeds and yields a snapshot with the same epoch,
  number, hash, vote log (in order), tally and validator membership, and the same
  ordering-policy identifier. The bytes decode to the record \<open>toJSONStruct\<close> built; that
  record carries the listed validator identities in ascending order, whatever the order
  of the listing, each as often as the listing has it, and the policy identifier of the
  set; and the validator set of the result is the set constructed from that list and
  that identifier.\<close>

theorem serialization_round_trip:
  assumes codec: "\<forall>j b. jsonMarshal j = Inr b \<longrightarrow> jsonUnmarshal b = Inr j"
    and listing: "set (ListOf (ValSet s)) = members (ValSet s)"
    and m: "MarshalJSON jsonMarshal ListOf s = Inr b"
  shows "\<exists>s'. UnmarshalJSON jsonUnmarshal r b = Inr s' \<and>
           Epoch s' = Epoch s \<and> Number s' = Number s \<and> Hash s' = Hash s \<and>
           Votes s' = Votes s \<and> Tally s' = Tally s \<and>
           members (ValSet s') = members (ValSet s) \<and>
           Policy (ValSet s') = Policy (ValSet s) \<and>
           jsonUnmarshal b = Inr (toJSONStruct ListOf s) \<and>
           sorted (jsonValidators (toJSONStruct ListOf s)) \<and>
           mset (jsonValidators (toJSONStruct ListOf s)) = mset (ListOf (ValSet s)) \<and>
           set (jsonValidators (toJSONStruct ListOf s)) = members (ValSet s) \<and>
           jsonPolicy (toJSONStruct ListOf s) = Policy (ValSet s) \<and>
           ValSet s' =
             NewSet (jsonValidators (toJSONStruct ListOf s)) (jsonPolicy (toJSONStruct ListOf s))"
proof -
  have "jsonMarshal (toJSONStruct ListOf s) = Inr b" using m by (simp add: MarshalJSON_def)
  then have d: "jsonUnmarshal b = Inr (toJSONStruct ListOf s)" using codec by blast
  have v: "sorted (validators ListOf s)" "mset (validators ListOf s) = mset (ListOf (ValSet s))"
    using validators_sorted [of ListOf s] by simp_all
  have "set (validators ListOf s) = set (ListOf (ValSet s))" using v(2) by (rule mset_eq_setD)
  then have st: "set (validators ListOf s) = members (ValSet s)" using listing by simp
  show ?thesis
    using d v st by (simp add: UnmarshalJSON_def toJSONStruct_def NewSet_def Policy_def)
qed

theorem serialization_round_trip_witness:
  "(\<forall>j. exMarshal j = Inr (Some j) \<and> exUnmarshal (Some j) = Inr j) \<and>
   exList (ValSet exTwoVotes) = [3, 1, 4, 2] \<and>
   set (exList (ValSet exTwoVotes)) = members (ValSet exTwoVotes) \<and>
   MarshalJSON exMarshal exList exTwoVotes = Inr (Some (toJSONStruct exList exTwoVotes)) \<and>
   jsonValidators (toJSONStruct exList exTwoVotes) = [1, 2, 3, 4] \<and>
   UnmarshalJSON exUnmarshal (exGenesis {}) (Some (toJSONStruct exList exTwoVotes)) =
     Inr exTwoVotes \<and>
   UnmarshalJSON exUnmarshal (exGenesis {}) None =
     Inl (errExternal ''unexpected end of JSON input'')"
proof -
  have c: "\<forall>j b. exMarshal j = Inr b \<longrightarrow> exUnmarshal b = Inr j"
    by (auto simp: exMarshal_def exUnmarshal_def)
  have l: "set (exList (ValSet exTwoVotes)) = members (ValSet exTwoVotes)"
    by (auto simp: exList_def exTwoVotes_def)
  have m: "MarshalJSON exMarshal exList exTwoVotes = Inr (Some (toJSONStruct exList exTwoVotes))"
    by (simp add: MarshalJSON_def exMarshal_def)
  from serialization_round_trip [of exMarshal exUnmarshal exList exTwoVotes
      "Some (toJSONStruct exList exTwoVotes)" "exGenesis {}", OF c l m]
  obtain s' where s':
    "UnmarshalJSON exUnmarshal (exGenesis {}) (Some (toJSONStruct exList exTwoVotes)) = Inr s'"
    "Epoch s' = Epoch exTwoVotes" "Number s' = Number exTwoVotes" "Hash s' = Hash exTwoVotes"
    "Votes s' = Votes exTwoVotes" "Tally s' = Tally exTwoVotes"
    "members (ValSet s') = members (ValSet exTwoVotes)"
    "Policy (ValSet s') = Policy (ValSet exTwoVotes)"
    by blast
  have "s' = exTwoVotes"
    using s'(2-8) by (cases s', cases "ValSet s'") (simp add: exTwoVotes_def Policy_def)
  moreover have "jsonValidators (toJSONStruct exList exTwoVotes) = [1, 2, 3, 4]"
    by (simp add: toJSONStruct_def validators_def exList_def sortOuter.simps sortInner.simps)
  moreover have "UnmarshalJSON exUnmarshal (exGenesis {}) None =
     Inl (errExternal ''unexpected end of JSON input'')"
    by (simp add: UnmarshalJSON_def exUnmarshal_def)
  moreover have "exList (ValSet exTwoVotes) = [3, 1, 4, 2]" by (simp add: exList_def)
  moreover have "\<forall>j. exMarshal j = Inr (Some j) \<and> exUnmarshal (Some j) = Inr j"
    by (simp add: exMarshal_def exUnmarshal_def)
  ultimately show ?thesis using l m s'(1) by simp
qed


section \<open>The fold on a store\<close>

text \<open>
  \<open>apply\<close> works on pointers: a \<open>*Snapshot\<close>, whose \<open>Votes\<close> is a slice (a window on a
  backing array), whose \<open>Tally\<close> is a reference to a map and whose \<open>ValSet\<close> is a
  pointer to a validator set. The store holds the four kinds of objects by reference;
  \<open>nextRef\<close> is the next reference an allocation returns. A reference with no object is
  nil: reading through it panics, except that a nil map reads as empty and ignores
  \<open>delete\<close>. The cells of a backing array are \<open>*Vote\<close> pointers, nil (\<open>None\<close>) or the
  vote pointed to; the list of cells is as long as the capacity of the array.
\<close>

type_synonym ref = nat

record slice =
  sliceBase :: ref
  sliceLen :: nat
  sliceCap :: nat

record snapshotObj =
  objEpoch :: uint64
  objNumber :: uint64
  objHash :: hash
  objVotes :: slice
  objTally :: ref
  objValSet :: ref

record heap =
  snapshots :: "ref \<rightharpoonup> snapshotObj"
  arrays :: "ref \<rightharpoonup> vote option list"
  tallies :: "ref \<rightharpoonup> (address \<rightharpoonup> tally)"
  valsets :: "ref \<rightharpoonup> validatorSet"
  nextRef :: ref

definition nilSlice :: slice where
  "nilSlice = \<lparr>sliceBase = 0, sliceLen = 0, sliceCap = 0\<rparr>"

definition cellsOf :: "heap \<Rightarrow> slice \<Rightarrow> vote option list" where
  "cellsOf h sl = (case arrays h (sliceBase sl) of None \<Rightarrow> [] | Some cs \<Rightarrow> cs)"

text \<open>\<open>sl[i]\<close>, for \<open>i < len(sl)\<close>.\<close>

definition cellAt :: "heap \<Rightarrow> slice \<Rightarrow> nat \<Rightarrow> vote option" where
  "cellAt h sl i = (if i < length (cellsOf h sl) then cellsOf h sl ! i else None)"

text \<open>\<open>append(sl[:i], sl[i+1:]...)\<close>, for \<open>i < len(sl)\<close>: the result fits the capacity,
  so the cells after \<open>i\<close> move down by one inside the same backing array, and the cell
  that was the last keeps its pointer.\<close>

definition deleteAtH :: "heap \<Rightarrow> slice \<Rightarrow> nat \<Rightarrow> heap \<times> slice" where
  "deleteAtH h sl i =
     (let cs = cellsOf h sl;
          moved = take i cs @ take (sliceLen sl - (i + 1)) (drop (i + 1) cs) @
                  drop (sliceLen sl - 1) cs
      in (h\<lparr>arrays := (arrays h)(sliceBase sl \<mapsto> moved)\<rparr>, sl\<lparr>sliceLen := sliceLen sl - 1\<rparr>))"

text \<open>\<open>append(sl, v)\<close>: in place when the capacity allows, otherwise into a new backing
  array. How much spare capacity the run time adds is its own choice, the parameter
  \<open>G\<close> (from the old capacity).\<close>

definition appendH :: "(nat \<Rightarrow> nat) \<Rightarrow> heap \<Rightarrow> slice \<Rightarrow> vote \<Rightarrow> heap \<times> slice" where
  "appendH G h sl v =
     (if sliceLen sl < sliceCap sl
      then (h\<lparr>arrays := (arrays h)(sliceBase sl \<mapsto> (cellsOf h sl)[sliceLen sl := Some v])\<rparr>,
            sl\<lparr>sliceLen := sliceLen sl + 1\<rparr>)
      else (h\<lparr>arrays := (arrays h)(nextRef h \<mapsto>
                  take (sliceLen sl) (cellsOf h sl) @ [Some v] @
                  replicate (G (sliceCap sl)) None),
              nextRef := nextRef h + 1\<rparr>,
            \<lparr>sliceBase = nextRef h, sliceLen = sliceLen sl + 1,
             sliceCap = sliceLen sl + 1 + G (sliceCap sl)\<rparr>))"

text \<open>\<open>copy\<close>: a new validator set, a new backing array of the length of the log, a new
  map and a new \<open>Snapshot\<close>; then the entries of the tally and the pointers of the log
  are copied.\<close>

definition copyH :: "heap \<Rightarrow> ref \<Rightarrow> heap \<times> (error + ref)" where
  "copyH h s =
     (case snapshots h s of
        None \<Rightarrow> (h, Inl panicNilPointer)
      | Some obj \<Rightarrow>
          (case valsets h (objValSet obj) of
             None \<Rightarrow> (h, Inl panicNilPointer)
           | Some V \<Rightarrow>
               (let n = sliceLen (objVotes obj);
                    v = nextRef h; a = nextRef h + 1; m = nextRef h + 2; cpy = nextRef h + 3;
                    cells = take n (cellsOf h (objVotes obj));
                    entries = (case tallies h (objTally obj) of None \<Rightarrow> Map.empty
                               | Some t \<Rightarrow> t)
                in (h\<lparr>valsets := (valsets h)(v \<mapsto> Copy V),
                      arrays := (arrays h)(a \<mapsto> cells @ replicate (n - length cells) None),
                      tallies := (tallies h)(m \<mapsto> entries),
                      snapshots := (snapshots h)(cpy \<mapsto>
                         \<lparr>objEpoch = objEpoch obj, objNumber = objNumber obj,
                          objHash = objHash obj,
                          objVotes = \<lparr>sliceBase = a, sliceLen = n, sliceCap = n\<rparr>,
                          objTally = m, objValSet = v\<rparr>),
                      nextRef := nextRef h + 4\<rparr>, Inr cpy))))"

definition checkVoteH :: "heap \<Rightarrow> ref \<Rightarrow> address \<Rightarrow> bool \<Rightarrow> error + bool" where
  "checkVoteH h s address authorize =
     (case snapshots h s of
        None \<Rightarrow> Inl panicNilPointer
      | Some obj \<Rightarrow>
          (case valsets h (objValSet obj) of
             None \<Rightarrow> Inl panicNilPointer
           | Some V \<Rightarrow>
               (let validator = GetByAddress V address
                in Inr ((validator \<noteq> None \<and> \<not> authorize) \<or> (validator = None \<and> authorize)))))"

definition castH :: "heap \<Rightarrow> ref \<Rightarrow> address \<Rightarrow> bool \<Rightarrow> heap \<times> (error + bool)" where
  "castH h s address authorize =
     (case checkVoteH h s address authorize of
        Inl err \<Rightarrow> (h, Inl err)
      | Inr False \<Rightarrow> (h, Inr False)
      | Inr True \<Rightarrow>
          (case snapshots h s of
             None \<Rightarrow> (h, Inl panicNilPointer)
           | Some obj \<Rightarrow>
               (case tallies h (objTally obj) of
                  None \<Rightarrow> (h, Inl panicNilMap)
                | Some t \<Rightarrow>
                    (h\<lparr>tallies := (tallies h)(objTally obj \<mapsto>
                          (case t address of
                             Some old \<Rightarrow> t(address \<mapsto> old\<lparr>TallyVotes := TallyVotes old + 1\<rparr>)
                           | None \<Rightarrow> t(address \<mapsto>
                                       \<lparr>TallyAuthorize = authorize, TallyVotes = 1\<rparr>)))\<rparr>,
                     Inr True))))"

definition uncastH :: "heap \<Rightarrow> ref \<Rightarrow> address \<Rightarrow> bool \<Rightarrow> heap \<times> (error + bool)" where
  "uncastH h s address authorize =
     (case snapshots h s of
        None \<Rightarrow> (h, Inl panicNilPointer)
      | Some obj \<Rightarrow>
          (case tallies h (objTally obj) of
             None \<Rightarrow> (h, Inr False)
           | Some t \<Rightarrow>
               (case t address of
                  None \<Rightarrow> (h, Inr False)
                | Some e \<Rightarrow>
                    if TallyAuthorize e \<noteq> authorize then (h, Inr False)
                    else if TallyVotes e > 1
                    then (h\<lparr>tallies := (tallies h)(objTally obj \<mapsto>
                              t(address \<mapsto> e\<lparr>TallyVotes := TallyVotes e - 1\<rparr>))\<rparr>, Inr True)
                    else (h\<lparr>tallies := (tallies h)(objTally obj \<mapsto> t(address := None))\<rparr>,
                          Inr True))))"

text \<open>\<open>s.Votes = append(s.Votes[:i], s.Votes[i+1:]...)\<close>.\<close>

definition deleteVoteH :: "heap \<Rightarrow> ref \<Rightarrow> nat \<Rightarrow> heap \<times> (error + unit)" where
  "deleteVoteH h s i =
     (case snapshots h s of
        None \<Rightarrow> (h, Inl panicNilPointer)
      | Some obj \<Rightarrow>
          (case deleteAtH h (objVotes obj) i of
             (h1, sl) \<Rightarrow> (h1\<lparr>snapshots := (snapshots h1)(s \<mapsto> obj\<lparr>objVotes := sl\<rparr>)\<rparr>, Inr ())))"

lemma snapshots_uncastH: "snapshots (fst (uncastH h s a b)) = snapshots h"
  by (simp add: uncastH_def split: option.split)

lemma sliceLen_deleteVoteH:
  "snapshots h s = Some obj \<Longrightarrow>
   snapshots (fst (deleteVoteH h s i)) s =
     Some (obj\<lparr>objVotes := (objVotes obj)\<lparr>sliceLen := sliceLen (objVotes obj) - 1\<rparr>\<rparr>)"
  by (simp add: deleteVoteH_def deleteAtH_def Let_def)


text \<open>The loop that discards the previous vote of the signer: \<open>range s.Votes\<close> reads
  the slice once (\<open>sl\<close>) and stops at the first match.\<close>

function discardPreviousH ::
  "heap \<Rightarrow> ref \<Rightarrow> slice \<Rightarrow> address \<Rightarrow> address \<Rightarrow> nat \<Rightarrow> heap \<times> (error + unit)" where
  "discardPreviousH h s sl validator target i =
     (if i < sliceLen sl then
        (case cellAt h sl i of
           None \<Rightarrow> (h, Inl panicNilPointer)
         | Some vote \<Rightarrow>
             if Validator vote = validator \<and> Address vote = target then
               (case uncastH h s (Address vote) (Authorize vote) of
                  (h1, Inl err) \<Rightarrow> (h1, Inl err)
                | (h1, Inr ok) \<Rightarrow> deleteVoteH h1 s i)
             else discardPreviousH h s sl validator target (i + 1))
      else (h, Inr ()))"
  by pat_completeness auto
termination
  by (relation "measure (\<lambda>(h, s, sl, validator, target, i). sliceLen sl - i)") auto

declare discardPreviousH.simps [simp del]

text \<open>The length of the log of the snapshot at \<open>s\<close>, as the loops read it.\<close>

definition lenVotes :: "heap \<Rightarrow> ref \<Rightarrow> nat" where
  "lenVotes h s = (case snapshots h s of None \<Rightarrow> 0 | Some obj \<Rightarrow> sliceLen (objVotes obj))"

lemma lenVotes_step:
  assumes "i < lenVotes h s"
  shows "lenVotes (fst (deleteVoteH (fst (uncastH h s a b)) s i)) s - i < lenVotes h s - i"
proof -
  obtain obj where obj: "snapshots h s = Some obj"
    using assms by (cases "snapshots h s") (simp_all add: lenVotes_def)
  then have "snapshots (fst (uncastH h s a b)) s = Some obj"
    by (simp add: snapshots_uncastH)
  from sliceLen_deleteVoteH [OF this] show ?thesis
    using assms obj by (simp add: lenVotes_def)
qed

text \<open>The loop that discards the votes the deauthorized validator cast.\<close>

function discardVotesByH :: "heap \<Rightarrow> ref \<Rightarrow> address \<Rightarrow> nat \<Rightarrow> heap \<times> (error + unit)" where
  "discardVotesByH h s a i =
     (case snapshots h s of
        None \<Rightarrow> (h, Inl panicNilPointer)
      | Some obj \<Rightarrow>
          if i < lenVotes h s then
            (case cellAt h (objVotes obj) i of
               None \<Rightarrow> (h, Inl panicNilPointer)
             | Some vote \<Rightarrow>
                 if Validator vote = a then
                   (case snd (uncastH h s (Address vote) (Authorize vote)) of
                      Inl err \<Rightarrow> (fst (uncastH h s (Address vote) (Authorize vote)), Inl err)
                    | Inr ok \<Rightarrow>
                        discardVotesByH
                          (fst (deleteVoteH
                                  (fst (uncastH h s (Address vote) (Authorize vote))) s i))
                          s a i)
                 else discardVotesByH h s a (i + 1))
          else (h, Inr ()))"
  by pat_completeness auto
termination
  by (relation "measure (\<lambda>(h, s, a, i). lenVotes h s - i)") (auto simp: lenVotes_step)

declare discardVotesByH.simps [simp del]

lemma lenVotes_step2:
  assumes "i < lenVotes h s"
  shows "lenVotes (fst (deleteVoteH h s i)) s - i < lenVotes h s - i"
proof -
  obtain obj where obj: "snapshots h s = Some obj"
    using assms by (cases "snapshots h s") (simp_all add: lenVotes_def)
  from sliceLen_deleteVoteH [OF this] show ?thesis
    using assms obj by (simp add: lenVotes_def)
qed

text \<open>The loop that discards the votes around the just changed account.\<close>

function discardVotesOnH :: "heap \<Rightarrow> ref \<Rightarrow> address \<Rightarrow> nat \<Rightarrow> heap \<times> (error + unit)" where
  "discardVotesOnH h s a i =
     (case snapshots h s of
        None \<Rightarrow> (h, Inl panicNilPointer)
      | Some obj \<Rightarrow>
          if i < lenVotes h s then
            (case cellAt h (objVotes obj) i of
               None \<Rightarrow> (h, Inl panicNilPointer)
             | Some vote \<Rightarrow>
                 if Address vote = a
                 then discardVotesOnH (fst (deleteVoteH h s i)) s a i
                 else discardVotesOnH h s a (i + 1))
          else (h, Inr ()))"
  by pat_completeness auto
termination
  by (relation "measure (\<lambda>(h, s, a, i). lenVotes h s - i)") (auto simp: lenVotes_step2)

declare discardVotesOnH.simps [simp del]


text \<open>\<open>if s.cast(target, authorize) { s.Votes = append(s.Votes, &Vote{...}) }\<close>.\<close>

definition castVoteH ::
  "(nat \<Rightarrow> nat) \<Rightarrow> heap \<Rightarrow> ref \<Rightarrow> address \<Rightarrow> uint64 \<Rightarrow> address \<Rightarrow> bool \<Rightarrow>
     heap \<times> (error + unit)" where
  "castVoteH G h s validator number target authorize =
     (case castH h s target authorize of
        (h1, Inl err) \<Rightarrow> (h1, Inl err)
      | (h1, Inr False) \<Rightarrow> (h1, Inr ())
      | (h1, Inr True) \<Rightarrow>
          (case snapshots h1 s of
             None \<Rightarrow> (h1, Inl panicNilPointer)
           | Some obj \<Rightarrow>
               (case appendH G h1 (objVotes obj)
                       \<lparr>Validator = validator, Block = number, Address = target,
                        Authorize = authorize\<rparr> of
                  (h2, sl) \<Rightarrow>
                    (h2\<lparr>snapshots := (snapshots h2)(s \<mapsto> obj\<lparr>objVotes := sl\<rparr>)\<rparr>, Inr ()))))"

text \<open>"If the vote passed, update the list of validators". \<open>AddValidator\<close> and
  \<open>RemoveValidator\<close> change the validator set object in place.\<close>

definition resolveH :: "heap \<Rightarrow> ref \<Rightarrow> address \<Rightarrow> heap \<times> (error + unit)" where
  "resolveH h s target =
     (case snapshots h s of
        None \<Rightarrow> (h, Inl panicNilPointer)
      | Some obj \<Rightarrow>
          (case valsets h (objValSet obj) of
             None \<Rightarrow> (h, Inl panicNilPointer)
           | Some V \<Rightarrow>
               (let t = (case tallies h (objTally obj) of
                           None \<Rightarrow> \<lparr>TallyAuthorize = False, TallyVotes = 0\<rparr>
                         | Some m \<Rightarrow>
                             (case m target of
                                None \<Rightarrow> \<lparr>TallyAuthorize = False, TallyVotes = 0\<rparr>
                              | Some e \<Rightarrow> e))
                in if TallyVotes t > Size V div 2 then
                     (case (if TallyAuthorize t
                            then (h\<lparr>valsets := (valsets h)(objValSet obj \<mapsto>
                                       AddValidator V target)\<rparr>, Inr ())
                            else discardVotesByH
                                   (h\<lparr>valsets := (valsets h)(objValSet obj \<mapsto>
                                        RemoveValidator V target)\<rparr>) s target 0) of
                        (h1, Inl err) \<Rightarrow> (h1, Inl err)
                      | (h1, Inr u) \<Rightarrow>
                          (case discardVotesOnH h1 s target 0 of
                             (h2, Inl err) \<Rightarrow> (h2, Inl err)
                           | (h2, Inr u) \<Rightarrow>
                               (case tallies h2 (objTally obj) of
                                  None \<Rightarrow> (h2, Inr ())
                                | Some m \<Rightarrow>
                                    (h2\<lparr>tallies := (tallies h2)(objTally obj \<mapsto>
                                           m(target := None))\<rparr>, Inr ()))))
                   else (h, Inr ()))))"

text \<open>"Remove any votes on checkpoint blocks": \<open>s.Votes = nil\<close> and a new, empty map for
  \<open>s.Tally\<close>. The caller has read the snapshot \<open>obj\<close> at \<open>s\<close> and checked its epoch.\<close>

definition checkpointH :: "heap \<Rightarrow> ref \<Rightarrow> snapshotObj \<Rightarrow> uint64 \<Rightarrow> heap" where
  "checkpointH h s obj number =
     (if number mod objEpoch obj = 0
      then h\<lparr>tallies := (tallies h)(nextRef h \<mapsto> Map.empty),
             snapshots := (snapshots h)(s \<mapsto> obj\<lparr>objVotes := nilSlice,
                                                  objTally := nextRef h\<rparr>),
             nextRef := nextRef h + 1\<rparr>
      else h)"

text \<open>The part the two folds share, from the discard of the previous vote on. The
  intent is decoded after the discard loop, so an undecodable intent (\<open>None\<close>) fails with
  \<open>errInvalidVote\<close> after the loop has run.\<close>

definition voteH ::
  "(nat \<Rightarrow> nat) \<Rightarrow> heap \<Rightarrow> ref \<Rightarrow> address \<Rightarrow> uint64 \<Rightarrow> address \<Rightarrow> bool option \<Rightarrow>
     heap \<times> (error + unit)" where
  "voteH G h s validator number target intent =
     (case snapshots h s of
        None \<Rightarrow> (h, Inl panicNilPointer)
      | Some obj \<Rightarrow>
          (case discardPreviousH h s (objVotes obj) validator target 0 of
             (h1, Inl err) \<Rightarrow> (h1, Inl err)
           | (h1, Inr u) \<Rightarrow>
               (case intent of
                  None \<Rightarrow> (h1, Inl errInvalidVote)
                | Some authorize \<Rightarrow>
                    (case castVoteH G h1 s validator number target authorize of
                       (h2, Inl err) \<Rightarrow> (h2, Inl err)
                     | (h2, Inr u) \<Rightarrow> resolveH h2 s target))))"

text \<open>The signer check \<open>s.ValSet.GetByAddress(validator)\<close> of both folds.\<close>

definition authorizedH :: "heap \<Rightarrow> ref \<Rightarrow> address \<Rightarrow> error + unit" where
  "authorizedH h s validator =
     (case snapshots h s of
        None \<Rightarrow> Inl panicNilPointer
      | Some obj \<Rightarrow>
          (case valsets h (objValSet obj) of
             None \<Rightarrow> Inl panicNilPointer
           | Some V \<Rightarrow>
               if GetByAddress V validator = None then Inl errUnauthorized else Inr ()))"

definition legacyApplyH ::
  "params \<Rightarrow> (nat \<Rightarrow> nat) \<Rightarrow> heap \<Rightarrow> ref \<Rightarrow> header \<Rightarrow> heap \<times> (error + unit)" where
  "legacyApplyH K G h s hdr =
     (let number = HeaderNumber hdr in
      case snapshots h s of
        None \<Rightarrow> (h, Inl panicNilPointer)
      | Some obj \<Rightarrow>
          if objEpoch obj = 0 then (h, Inl panicDivideByZero)
          else
            (let h0 = checkpointH h s obj number in
             case ecrecoverFromSignedHeader hdr of
               Inl err \<Rightarrow> (h0, Inl err)
             | Inr validator \<Rightarrow>
                 (case authorizedH h0 s validator of
                    Inl err \<Rightarrow> (h0, Inl err)
                  | Inr u \<Rightarrow>
                      voteH G h0 s validator number (Coinbase hdr)
                        (if Nonce hdr = nonceAuthVote K then Some True
                         else if Nonce hdr = nonceDropVote K then Some False
                         else None))))"

definition qbftApplyH ::
  "params \<Rightarrow> (nat \<Rightarrow> nat) \<Rightarrow> heap \<Rightarrow> ref \<Rightarrow> header \<Rightarrow> heap \<times> (error + unit)" where
  "qbftApplyH K G h s hdr =
     (let number = HeaderNumber hdr in
      case snapshots h s of
        None \<Rightarrow> (h, Inl panicNilPointer)
      | Some obj \<Rightarrow>
          if objEpoch obj = 0 then (h, Inl panicDivideByZero)
          else
            (let h0 = checkpointH h s obj number in
             case ecrecoverFromCoinbase hdr of
               Inl err \<Rightarrow> (h0, Inl err)
             | Inr validator \<Rightarrow>
                 (case authorizedH h0 s validator of
                    Inl err \<Rightarrow> (h0, Inl err)
                  | Inr u \<Rightarrow>
                      (case ExtractQbftExtra hdr of
                         Inl err \<Rightarrow> (h0, Inl errInvalidExtraDataFormat)
                       | Inr qbftVote \<Rightarrow>
                           (let validatorVote =
                                  (case qbftVote of
                                     None \<Rightarrow> \<lparr>RecipientAddress = 0,
                                              VoteType = QbftDropVote K\<rparr>
                                   | Some v \<Rightarrow> v)
                            in voteH G h0 s validator number
                                 (RecipientAddress validatorVote)
                                 (if VoteType validatorVote = QbftAuthVote K then Some True
                                  else if VoteType validatorVote = QbftDropVote K
                                  then Some False
                                  else None))))))"

fun applyLoopH ::
  "params \<Rightarrow> (nat \<Rightarrow> nat) \<Rightarrow> bool \<Rightarrow> uint64 \<Rightarrow> heap \<Rightarrow> ref \<Rightarrow> header list \<Rightarrow>
     heap \<times> (error + unit)" where
  "applyLoopH K G isQBFTConsensus qbftBlockNumber h snap [] = (h, Inr ())"
| "applyLoopH K G isQBFTConsensus qbftBlockNumber h snap (hdr # headers) =
     (case (if isQBFTConsensus \<and> sint (HeaderNumber hdr) > sint qbftBlockNumber
            then qbftApplyH K G h snap hdr else legacyApplyH K G h snap hdr) of
        (h1, Inl err) \<Rightarrow> (h1, Inl err)
      | (h1, Inr u) \<Rightarrow> applyLoopH K G isQBFTConsensus qbftBlockNumber h1 snap headers)"

text \<open>\<open>apply\<close>: the result is the store after the call and either the error (with a nil
  snapshot) or the pointer returned.\<close>

definition applyH ::
  "params \<Rightarrow> (nat \<Rightarrow> nat) \<Rightarrow> heap \<Rightarrow> ref \<Rightarrow> header list \<Rightarrow> bool \<Rightarrow> uint64 \<Rightarrow>
     heap \<times> (error + ref)" where
  "applyH K G h s headers isQBFTConsensus qbftBlockNumber =
     (if length headers = 0 then (h, Inr s)
      else if \<not> checkChain headers 0 then (h, Inl errInvalidVotingChain)
      else
        (case snapshots h s of
           None \<Rightarrow> (h, Inl panicNilPointer)
         | Some obj \<Rightarrow>
             if HeaderNumber (headers ! 0) \<noteq> objNumber obj + 1
             then (h, Inl errInvalidVotingChain)
             else
               (case copyH h s of
                  (h1, Inl err) \<Rightarrow> (h1, Inl err)
                | (h1, Inr snap) \<Rightarrow>
                    (case applyLoopH K G isQBFTConsensus qbftBlockNumber h1 snap headers of
                       (h2, Inl err) \<Rightarrow> (h2, Inl err)
                     | (h2, Inr u) \<Rightarrow>
                         (case snapshots h2 snap of
                            None \<Rightarrow> (h2, Inl panicNilPointer)
                          | Some c \<Rightarrow>
                              (h2\<lparr>snapshots := (snapshots h2)(snap \<mapsto>
                                     c\<lparr>objNumber := objNumber c + of_nat (length headers),
                                       objHash :=
                                         HeaderHash (headers ! (length headers - 1))\<rparr>)\<rparr>,
                               Inr snap))))))"


subsection \<open>What the fold writes\<close>

text \<open>\<open>frame n h h'\<close>: the objects at the references below \<open>n\<close> are in \<open>h'\<close> what they are
  in \<open>h\<close>. \<open>owned n h s\<close>: the snapshot at \<open>s\<close>, its map, its validator set and the
  backing array of its log were allocated at or after \<open>n\<close>.\<close>

definition frame :: "ref \<Rightarrow> heap \<Rightarrow> heap \<Rightarrow> bool" where
  "frame n h h' =
     (nextRef h \<le> nextRef h' \<and>
      (\<forall>r. r < n \<longrightarrow>
         snapshots h' r = snapshots h r \<and> arrays h' r = arrays h r \<and>
         tallies h' r = tallies h r \<and> valsets h' r = valsets h r))"

definition owned :: "ref \<Rightarrow> heap \<Rightarrow> ref \<Rightarrow> bool" where
  "owned n h s =
     (n \<le> nextRef h \<and> n \<le> s \<and>
      (\<forall>obj. snapshots h s = Some obj \<longrightarrow>
         n \<le> objTally obj \<and> n \<le> objValSet obj \<and>
         (n \<le> sliceBase (objVotes obj) \<or>
          sliceLen (objVotes obj) = 0 \<and> sliceCap (objVotes obj) = 0)))"

lemma frame_refl: "frame n h h"
  by (simp add: frame_def)

lemma frame_trans: "frame n h h1 \<Longrightarrow> frame n h1 h2 \<Longrightarrow> frame n h h2"
  by (simp add: frame_def)

lemma uncastH_frame:
  "owned n h s \<Longrightarrow> frame n h (fst (uncastH h s a b)) \<and> owned n (fst (uncastH h s a b)) s"
  by (auto simp: uncastH_def frame_def owned_def split: option.splits)

lemma castH_frame:
  "owned n h s \<Longrightarrow> frame n h (fst (castH h s a b)) \<and> owned n (fst (castH h s a b)) s"
  by (auto simp: castH_def frame_def owned_def split: option.splits sum.splits bool.splits)

lemma deleteVoteH_frame:
  "owned n h s \<Longrightarrow> i < lenVotes h s \<Longrightarrow>
   frame n h (fst (deleteVoteH h s i)) \<and> owned n (fst (deleteVoteH h s i)) s"
  by (auto simp: deleteVoteH_def deleteAtH_def Let_def frame_def owned_def lenVotes_def
      split: option.splits)

lemma castVoteH_frame:
  "owned n h s \<Longrightarrow>
   frame n h (fst (castVoteH G h s v k a b)) \<and> owned n (fst (castVoteH G h s v k a b)) s"
proof -
  assume o: "owned n h s"
  define h1 where "h1 = fst (castH h s a b)"
  have 1: "frame n h h1" "owned n h1 s" using castH_frame [OF o] by (simp_all add: h1_def)
  have c: "castH h s a b = (h1, snd (castH h s a b))" by (simp add: h1_def)
  have 2: "frame n h1 (fst (castVoteH G h s v k a b)) \<and>
           owned n (fst (castVoteH G h s v k a b)) s"
    using 1(2)
    by (subst (1 2) castVoteH_def, subst (1 2) c)
      (auto simp: appendH_def frame_def owned_def split: option.splits sum.splits bool.splits)
  show ?thesis using 1(1) 2 frame_trans by blast
qed


lemma lenVotes_uncastH: "lenVotes (fst (uncastH h s a b)) s = lenVotes h s"
  by (simp add: lenVotes_def snapshots_uncastH)

lemma remove_frame:
  assumes o: "owned n h s" and i: "i < lenVotes h s"
  shows "frame n h (fst (deleteVoteH (fst (uncastH h s a b)) s i)) \<and>
         owned n (fst (deleteVoteH (fst (uncastH h s a b)) s i)) s"
proof -
  note u = uncastH_frame [OF o, of a b]
  have "i < lenVotes (fst (uncastH h s a b)) s" using i by (simp add: lenVotes_uncastH)
  from deleteVoteH_frame [OF u [THEN conjunct2] this] u show ?thesis
    using frame_trans by blast
qed

lemma discardPreviousH_frame:
  "owned n h s \<Longrightarrow> sliceLen sl \<le> lenVotes h s \<Longrightarrow>
   frame n h (fst (discardPreviousH h s sl v a i)) \<and>
   owned n (fst (discardPreviousH h s sl v a i)) s"
proof (induction h s sl v a i rule: discardPreviousH.induct)
  case (1 h s sl validator target i)
  show ?case
  proof (cases "i < sliceLen sl")
    case False
    then show ?thesis using 1(2) by (subst (1 2) discardPreviousH.simps) (simp add: frame_refl)
  next
    case lt: True
    show ?thesis
    proof (cases "cellAt h sl i")
      case None
      then show ?thesis using 1(2) lt
        by (subst (1 2) discardPreviousH.simps) (simp add: frame_refl)
    next
      case (Some vote)
      show ?thesis
      proof (cases "Validator vote = validator \<and> Address vote = target")
        case False
        then have e: "discardPreviousH h s sl validator target i =
                      discardPreviousH h s sl validator target (i + 1)"
          using lt Some by (subst discardPreviousH.simps) auto
        show ?thesis unfolding e using 1(1) [OF lt Some False 1(2,3)] .
      next
        case True
        define u where "u = uncastH h s (Address vote) (Authorize vote)"
        have il: "i < lenVotes h s" using lt 1(3) by simp
        have uf: "frame n h (fst u) \<and> owned n (fst u) s"
          unfolding u_def by (rule uncastH_frame [OF 1(2)])
        have rf: "frame n h (fst (deleteVoteH (fst u) s i)) \<and>
                  owned n (fst (deleteVoteH (fst u) s i)) s"
          unfolding u_def by (rule remove_frame [OF 1(2) il])
        have e: "discardPreviousH h s sl validator target i =
                   (case u of (h1, Inl err) \<Rightarrow> (h1, Inl err)
                    | (h1, Inr ok) \<Rightarrow> deleteVoteH h1 s i)"
          using lt Some True by (subst discardPreviousH.simps) (simp add: u_def)
        show ?thesis
          unfolding e using uf rf by (cases u) (auto split: sum.splits)
      qed
    qed
  qed
qed

lemma discardVotesByH_frame:
  "owned n h s \<Longrightarrow>
   frame n h (fst (discardVotesByH h s a i)) \<and> owned n (fst (discardVotesByH h s a i)) s"
proof (induction h s a i rule: discardVotesByH.induct)
  case (1 h s a i)
  show ?case
  proof (cases "snapshots h s")
    case None
    then show ?thesis using 1(3) by (subst (1 2) discardVotesByH.simps) (simp add: frame_refl)
  next
    case (Some obj)
    show ?thesis
    proof (cases "i < lenVotes h s")
      case False
      then show ?thesis using 1(3) Some
        by (subst (1 2) discardVotesByH.simps) (simp add: frame_refl)
    next
      case lt: True
      show ?thesis
      proof (cases "cellAt h (objVotes obj) i")
        case None
        then show ?thesis using 1(3) Some lt
          by (subst (1 2) discardVotesByH.simps) (simp add: frame_refl)
      next
        case vote: (Some vote)
        show ?thesis
        proof (cases "Validator vote = a")
          case False
          then have e: "discardVotesByH h s a i = discardVotesByH h s a (i + 1)"
            using lt Some vote by (subst discardVotesByH.simps) simp
          show ?thesis unfolding e using 1(2) [OF Some lt vote False 1(3)] .
        next
          case True
          define u where "u = uncastH h s (Address vote) (Authorize vote)"
          define h' where "h' = fst (deleteVoteH (fst u) s i)"
          have uf: "frame n h (fst u) \<and> owned n (fst u) s"
            unfolding u_def by (rule uncastH_frame [OF 1(3)])
          have rf: "frame n h h' \<and> owned n h' s"
            unfolding h'_def u_def by (rule remove_frame [OF 1(3) lt])
          show ?thesis
          proof (cases "snd u")
            case (Inl err)
            then have e: "discardVotesByH h s a i = (fst u, Inl err)"
              using lt Some vote True by (subst discardVotesByH.simps) (simp add: u_def)
            show ?thesis unfolding e using uf by simp
          next
            case (Inr ok)
            then have e: "discardVotesByH h s a i = discardVotesByH h' s a i"
              using lt Some vote True
              by (subst discardVotesByH.simps) (simp add: u_def h'_def)
            have "frame n h' (fst (discardVotesByH h' s a i)) \<and>
                  owned n (fst (discardVotesByH h' s a i)) s"
              using 1(1) [OF Some lt vote True Inr [unfolded u_def]] rf
              by (simp add: h'_def u_def)
            then show ?thesis unfolding e using rf frame_trans by blast
          qed
        qed
      qed
    qed
  qed
qed

lemma discardVotesOnH_frame:
  "owned n h s \<Longrightarrow>
   frame n h (fst (discardVotesOnH h s a i)) \<and> owned n (fst (discardVotesOnH h s a i)) s"
proof (induction h s a i rule: discardVotesOnH.induct)
  case (1 h s a i)
  show ?case
  proof (cases "snapshots h s")
    case None
    then show ?thesis using 1(3) by (subst (1 2) discardVotesOnH.simps) (simp add: frame_refl)
  next
    case (Some obj)
    show ?thesis
    proof (cases "i < lenVotes h s")
      case False
      then show ?thesis using 1(3) Some
        by (subst (1 2) discardVotesOnH.simps) (simp add: frame_refl)
    next
      case lt: True
      show ?thesis
      proof (cases "cellAt h (objVotes obj) i")
        case None
        then show ?thesis using 1(3) Some lt
          by (subst (1 2) discardVotesOnH.simps) (simp add: frame_refl)
      next
        case vote: (Some vote)
        show ?thesis
        proof (cases "Address vote = a")
          case False
          then have e: "discardVotesOnH h s a i = discardVotesOnH h s a (i + 1)"
            using lt Some vote by (subst discardVotesOnH.simps) simp
          show ?thesis unfolding e using 1(2) [OF Some lt vote False 1(3)] .
        next
          case True
          define h' where "h' = fst (deleteVoteH h s i)"
          have rf: "frame n h h' \<and> owned n h' s"
            unfolding h'_def by (rule deleteVoteH_frame [OF 1(3) lt])
          have e: "discardVotesOnH h s a i = discardVotesOnH h' s a i"
            using lt Some vote True by (subst discardVotesOnH.simps) (simp add: h'_def)
          have "frame n h' (fst (discardVotesOnH h' s a i)) \<and>
                owned n (fst (discardVotesOnH h' s a i)) s"
            using 1(1) [OF Some lt vote True] rf by (simp add: h'_def)
          then show ?thesis unfolding e using rf frame_trans by blast
        qed
      qed
    qed
  qed
qed


lemma valset_update_frame:
  "owned n h s \<Longrightarrow> snapshots h s = Some obj \<Longrightarrow>
   frame n h (h\<lparr>valsets := (valsets h)(objValSet obj \<mapsto> V)\<rparr>) \<and>
   owned n (h\<lparr>valsets := (valsets h)(objValSet obj \<mapsto> V)\<rparr>) s"
  by (auto simp: frame_def owned_def)

lemma tally_delete_frame:
  "owned n h s \<Longrightarrow> snapshots h s = Some obj' \<Longrightarrow> objTally obj' = r \<Longrightarrow>
   frame n h (h\<lparr>tallies := (tallies h)(r \<mapsto> m)\<rparr>) \<and>
   owned n (h\<lparr>tallies := (tallies h)(r \<mapsto> m)\<rparr>) s"
  by (auto simp: frame_def owned_def)

lemma snapshots_deleteVoteH_objTally:
  "snapshots h s = Some obj \<Longrightarrow>
   \<exists>obj'. snapshots (fst (deleteVoteH h s i)) s = Some obj' \<and> objTally obj' = objTally obj"
  by (simp add: deleteVoteH_def deleteAtH_def Let_def)

lemma discardVotesByH_objTally:
  "snapshots h s = Some obj \<Longrightarrow>
   \<exists>obj'. snapshots (fst (discardVotesByH h s a i)) s = Some obj' \<and>
          objTally obj' = objTally obj"
proof (induction h s a i arbitrary: obj rule: discardVotesByH.induct)
  case (1 h s a i)
  show ?case
  proof (cases "i < lenVotes h s")
    case False
    then show ?thesis using 1(3) by (subst discardVotesByH.simps) simp
  next
    case lt: True
    show ?thesis
    proof (cases "cellAt h (objVotes obj) i")
      case None
      then show ?thesis using 1(3) lt by (subst discardVotesByH.simps) simp
    next
      case vote: (Some vote)
      show ?thesis
      proof (cases "Validator vote = a")
        case False
        then have e: "discardVotesByH h s a i = discardVotesByH h s a (i + 1)"
          using lt 1(3) vote by (subst discardVotesByH.simps) simp
        show ?thesis unfolding e using 1(2) [OF 1(3) lt vote False 1(3)] .
      next
        case True
        define u where "u = uncastH h s (Address vote) (Authorize vote)"
        define h' where "h' = fst (deleteVoteH (fst u) s i)"
        have su: "snapshots (fst u) s = Some obj"
          using 1(3) by (simp add: u_def snapshots_uncastH)
        from snapshots_deleteVoteH_objTally [OF su, of i]
        obtain obj1 where o1: "snapshots h' s = Some obj1" "objTally obj1 = objTally obj"
          unfolding h'_def by blast
        show ?thesis
        proof (cases "snd u")
          case (Inl err)
          then have e: "discardVotesByH h s a i = (fst u, Inl err)"
            using lt 1(3) vote True by (subst discardVotesByH.simps) (simp add: u_def)
          show ?thesis unfolding e using su by simp
        next
          case (Inr ok)
          then have e: "discardVotesByH h s a i = discardVotesByH h' s a i"
            using lt 1(3) vote True
            by (subst discardVotesByH.simps) (simp add: u_def h'_def)
          from 1(1) [OF 1(3) lt vote True Inr [unfolded u_def], of obj1] o1
          show ?thesis unfolding e by (simp add: h'_def u_def)
        qed
      qed
    qed
  qed
qed

lemma discardVotesOnH_objTally:
  "snapshots h s = Some obj \<Longrightarrow>
   \<exists>obj'. snapshots (fst (discardVotesOnH h s a i)) s = Some obj' \<and>
          objTally obj' = objTally obj"
proof (induction h s a i arbitrary: obj rule: discardVotesOnH.induct)
  case (1 h s a i)
  show ?case
  proof (cases "i < lenVotes h s")
    case False
    then show ?thesis using 1(3) by (subst discardVotesOnH.simps) simp
  next
    case lt: True
    show ?thesis
    proof (cases "cellAt h (objVotes obj) i")
      case None
      then show ?thesis using 1(3) lt by (subst discardVotesOnH.simps) simp
    next
      case vote: (Some vote)
      show ?thesis
      proof (cases "Address vote = a")
        case False
        then have e: "discardVotesOnH h s a i = discardVotesOnH h s a (i + 1)"
          using lt 1(3) vote by (subst discardVotesOnH.simps) simp
        show ?thesis unfolding e using 1(2) [OF 1(3) lt vote False 1(3)] .
      next
        case True
        define h' where "h' = fst (deleteVoteH h s i)"
        from snapshots_deleteVoteH_objTally [OF 1(3), of i]
        obtain obj1 where o1: "snapshots h' s = Some obj1" "objTally obj1 = objTally obj"
          unfolding h'_def by blast
        have e: "discardVotesOnH h s a i = discardVotesOnH h' s a i"
          using lt 1(3) vote True by (subst discardVotesOnH.simps) (simp add: h'_def)
        from 1(1) [OF 1(3) lt vote True, of obj1] o1
        show ?thesis unfolding e by (simp add: h'_def)
      qed
    qed
  qed
qed

lemma resolveH_frame:
  assumes o: "owned n h s"
  shows "frame n h (fst (resolveH h s a)) \<and> owned n (fst (resolveH h s a)) s"
proof (cases "snapshots h s")
  case None
  then show ?thesis using o by (simp add: resolveH_def frame_refl)
next
  case (Some obj)
  show ?thesis
  proof (cases "valsets h (objValSet obj)")
    case None
    then show ?thesis using o Some by (simp add: resolveH_def frame_refl)
  next
    case V: (Some V)
    define t where "t = (case tallies h (objTally obj) of
                           None \<Rightarrow> \<lparr>TallyAuthorize = False, TallyVotes = 0\<rparr>
                         | Some m \<Rightarrow>
                             (case m a of
                                None \<Rightarrow> \<lparr>TallyAuthorize = False, TallyVotes = 0\<rparr>
                              | Some e \<Rightarrow> e))"
    show ?thesis
    proof (cases "TallyVotes t > Size V div 2")
      case False
      then show ?thesis using o Some V
        by (simp add: resolveH_def frame_refl t_def [symmetric])
    next
      case True
      define hv where "hv = (if TallyAuthorize t
                             then h\<lparr>valsets := (valsets h)(objValSet obj \<mapsto>
                                       AddValidator V a)\<rparr>
                             else h\<lparr>valsets := (valsets h)(objValSet obj \<mapsto>
                                       RemoveValidator V a)\<rparr>)"
      define r1 where "r1 = (if TallyAuthorize t then (hv, Inr ())
                             else discardVotesByH hv s a 0)"
      have hv: "frame n h hv \<and> owned n hv s" and hvs: "snapshots hv s = Some obj"
        using valset_update_frame [OF o Some] Some by (simp_all add: hv_def)
      have r1: "frame n h (fst r1) \<and> owned n (fst r1) s"
        using hv discardVotesByH_frame [of n hv s a 0] frame_trans
        unfolding r1_def by (cases "TallyAuthorize t") auto
      have r1s: "\<exists>obj'. snapshots (fst r1) s = Some obj' \<and> objTally obj' = objTally obj"
        using hvs discardVotesByH_objTally [OF hvs, of a 0]
        unfolding r1_def by (cases "TallyAuthorize t") auto
      define r2 where "r2 = discardVotesOnH (fst r1) s a 0"
      have r2: "frame n h (fst r2) \<and> owned n (fst r2) s"
        using r1 discardVotesOnH_frame [of n "fst r1" s a 0] frame_trans
        unfolding r2_def by blast
      obtain obj2 where obj2: "snapshots (fst r2) s = Some obj2" "objTally obj2 = objTally obj"
        using r1s discardVotesOnH_objTally [of "fst r1" s _ a 0] unfolding r2_def by metis
      have e: "resolveH h s a =
          (case r1 of
             (h1, Inl err) \<Rightarrow> (h1, Inl err)
           | (h1, Inr u) \<Rightarrow>
               (case discardVotesOnH h1 s a 0 of
                  (h2, Inl err) \<Rightarrow> (h2, Inl err)
                | (h2, Inr u) \<Rightarrow>
                    (case tallies h2 (objTally obj) of
                       None \<Rightarrow> (h2, Inr ())
                     | Some m \<Rightarrow>
                         (h2\<lparr>tallies := (tallies h2)(objTally obj \<mapsto> m(a := None))\<rparr>,
                          Inr ()))))"
        using Some V True
        by (simp add: resolveH_def t_def [symmetric] r1_def hv_def)
      show ?thesis
      proof (cases r1)
        case (Pair h1 x1)
        show ?thesis
        proof (cases x1)
          case (Inl err)
          then show ?thesis unfolding e using r1 Pair by simp
        next
          case (Inr u1)
          obtain h2 x2 where p2: "discardVotesOnH h1 s a 0 = (h2, x2)"
            by (cases "discardVotesOnH h1 s a 0") auto
          have r2': "frame n h h2 \<and> owned n h2 s" "snapshots h2 s = Some obj2"
            using r2 obj2 p2 Pair unfolding r2_def by simp_all
          show ?thesis
          proof (cases x2)
            case (Inl err)
            then show ?thesis unfolding e using Pair Inr p2 r2' by simp
          next
            case x2: (Inr u2)
            show ?thesis
            proof (cases "tallies h2 (objTally obj)")
              case None
              then show ?thesis unfolding e using Pair Inr p2 x2 r2' by simp
            next
              case (Some m)
              from tally_delete_frame [OF r2'(1) [THEN conjunct2] r2'(2) obj2(2),
                  of "m(a := None)"] r2'(1) [THEN conjunct1]
              have "frame n h (h2\<lparr>tallies := (tallies h2)(objTally obj \<mapsto> m(a := None))\<rparr>)
                  \<and> owned n (h2\<lparr>tallies := (tallies h2)(objTally obj \<mapsto> m(a := None))\<rparr>) s"
                using frame_trans by blast
              then show ?thesis unfolding e using Pair Inr p2 x2 Some by simp
            qed
          qed
        qed
      qed
    qed
  qed
qed


lemma voteH_frame:
  assumes o: "owned n h s"
  shows "frame n h (fst (voteH G h s v k a intent)) \<and>
         owned n (fst (voteH G h s v k a intent)) s"
proof (cases "snapshots h s")
  case None
  then show ?thesis using o by (simp add: voteH_def frame_refl)
next
  case (Some obj)
  define r1 where "r1 = discardPreviousH h s (objVotes obj) v a 0"
  have r1: "frame n h (fst r1) \<and> owned n (fst r1) s"
    unfolding r1_def using Some by (intro discardPreviousH_frame [OF o]) (simp add: lenVotes_def)
  have e: "voteH G h s v k a intent =
      (case r1 of
         (h1, Inl err) \<Rightarrow> (h1, Inl err)
       | (h1, Inr u) \<Rightarrow>
           (case intent of
              None \<Rightarrow> (h1, Inl errInvalidVote)
            | Some authorize \<Rightarrow>
                (case castVoteH G h1 s v k a authorize of
                   (h2, Inl err) \<Rightarrow> (h2, Inl err)
                 | (h2, Inr u) \<Rightarrow> resolveH h2 s a)))"
    using Some by (simp add: voteH_def r1_def)
  obtain h1 x1 where p1: "r1 = (h1, x1)" by (cases r1) auto
  have f1: "frame n h h1" "owned n h1 s" using r1 p1 by simp_all
  show ?thesis
  proof (cases x1)
    case (Inl err)
    then show ?thesis unfolding e p1 using f1 by simp
  next
    case (Inr u)
    show ?thesis
    proof (cases intent)
      case None
      then show ?thesis unfolding e p1 using f1 Inr by simp
    next
      case (Some authorize)
      obtain h2 x2 where p2: "castVoteH G h1 s v k a authorize = (h2, x2)"
        by (cases "castVoteH G h1 s v k a authorize") auto
      have f2: "frame n h h2" "owned n h2 s"
        using castVoteH_frame [OF f1(2), of G v k a authorize] f1(1) p2 frame_trans
        by auto
      show ?thesis
      proof (cases x2)
        case (Inl err)
        then show ?thesis unfolding e p1 using f2 Inr Some p2 by simp
      next
        case x2: (Inr u2)
        have "frame n h (fst (resolveH h2 s a)) \<and> owned n (fst (resolveH h2 s a)) s"
          using resolveH_frame [OF f2(2), of a] f2(1) frame_trans by blast
        then show ?thesis unfolding e p1 using Inr Some p2 x2 by simp
      qed
    qed
  qed
qed

lemma checkpointH_frame:
  "owned n h s \<Longrightarrow> snapshots h s = Some obj \<Longrightarrow>
   frame n h (checkpointH h s obj number) \<and> owned n (checkpointH h s obj number) s"
  by (auto simp: checkpointH_def frame_def owned_def nilSlice_def)

lemma legacyApplyH_frame:
  assumes o: "owned n h s"
  shows "frame n h (fst (legacyApplyH K G h s hdr)) \<and>
         owned n (fst (legacyApplyH K G h s hdr)) s"
proof (cases "snapshots h s")
  case None
  then show ?thesis using o by (simp add: legacyApplyH_def frame_refl)
next
  case (Some obj)
  define h0 where "h0 = checkpointH h s obj (HeaderNumber hdr)"
  have f0: "frame n h h0" "owned n h0 s"
    using checkpointH_frame [OF o Some] by (simp_all add: h0_def)
  have v: "frame n h (fst (voteH G h0 s v k a intent)) \<and>
           owned n (fst (voteH G h0 s v k a intent)) s" for v k a intent
    using voteH_frame [OF f0(2)] f0(1) frame_trans by blast
  show ?thesis
    using o f0 v Some
    by (auto simp: legacyApplyH_def Let_def h0_def [symmetric] frame_refl
        split: sum.splits)
qed

lemma qbftApplyH_frame:
  assumes o: "owned n h s"
  shows "frame n h (fst (qbftApplyH K G h s hdr)) \<and>
         owned n (fst (qbftApplyH K G h s hdr)) s"
proof (cases "snapshots h s")
  case None
  then show ?thesis using o by (simp add: qbftApplyH_def frame_refl)
next
  case (Some obj)
  define h0 where "h0 = checkpointH h s obj (HeaderNumber hdr)"
  have f0: "frame n h h0" "owned n h0 s"
    using checkpointH_frame [OF o Some] by (simp_all add: h0_def)
  have v: "frame n h (fst (voteH G h0 s v k a intent)) \<and>
           owned n (fst (voteH G h0 s v k a intent)) s" for v k a intent
    using voteH_frame [OF f0(2)] f0(1) frame_trans by blast
  show ?thesis
    using o f0 v Some
    by (auto simp: qbftApplyH_def Let_def h0_def [symmetric] frame_refl
        split: sum.splits)
qed

lemma applyLoopH_frame:
  "owned n h s \<Longrightarrow>
   frame n h (fst (applyLoopH K G q qb h s headers)) \<and>
   owned n (fst (applyLoopH K G q qb h s headers)) s"
proof (induction headers arbitrary: h)
  case Nil
  then show ?case by (simp add: frame_refl)
next
  case (Cons hdr headers)
  define r where "r = (if q \<and> sint (HeaderNumber hdr) > sint qb
            then qbftApplyH K G h s hdr else legacyApplyH K G h s hdr)"
  have f: "frame n h (fst r) \<and> owned n (fst r) s"
    unfolding r_def using legacyApplyH_frame [OF Cons.prems] qbftApplyH_frame [OF Cons.prems]
    by simp
  have e: "applyLoopH K G q qb h s (hdr # headers) =
      (case r of (h1, Inl err) \<Rightarrow> (h1, Inl err)
       | (h1, Inr u) \<Rightarrow> applyLoopH K G q qb h1 s headers)"
    by (simp add: r_def)
  obtain h1 x1 where p: "r = (h1, x1)" by (cases r) auto
  show ?case
  proof (cases x1)
    case (Inl err)
    then show ?thesis unfolding e p using f p by simp
  next
    case (Inr u)
    have "owned n h1 s" "frame n h h1" using f p by simp_all
    from Cons.IH [OF this(1)] this(2)
    have "frame n h (fst (applyLoopH K G q qb h1 s headers)) \<and>
          owned n (fst (applyLoopH K G q qb h1 s headers)) s"
      using frame_trans by blast
    then show ?thesis unfolding e p using Inr by simp
  qed
qed

lemma copyH_frame:
  "copyH h s = (h1, Inr snap) \<Longrightarrow> frame (nextRef h) h h1 \<and> owned (nextRef h) h1 snap"
  by (auto simp: copyH_def Let_def frame_def owned_def split: option.splits)

lemma copyH_error: "copyH h s = (h1, Inl err) \<Longrightarrow> h1 = h"
  by (auto simp: copyH_def Let_def split: option.splits)

lemma applyH_frame: "frame (nextRef h) h (fst (applyH K G h s headers q qb))"
proof (cases "copyH h s")
  case (Pair h1 x1)
  show ?thesis
  proof (cases x1)
    case (Inl err)
    then have "h1 = h" using Pair copyH_error by blast
    then show ?thesis using Pair Inl
      by (simp add: applyH_def frame_refl split: option.splits)
  next
    case (Inr snap)
    from copyH_frame [OF Pair [unfolded Inr]]
    have f1: "frame (nextRef h) h h1" "owned (nextRef h) h1 snap" by simp_all
    obtain h2 x2 where p2: "applyLoopH K G q qb h1 snap headers = (h2, x2)"
      by (cases "applyLoopH K G q qb h1 snap headers") auto
    have f2: "frame (nextRef h) h h2" "owned (nextRef h) h2 snap"
      using applyLoopH_frame [OF f1(2), of K G q qb headers] f1(1) p2 frame_trans by auto
    have f3: "frame (nextRef h) h (h2\<lparr>snapshots := (snapshots h2)(snap \<mapsto> c)\<rparr>)" for c
      using f2 by (auto simp: frame_def owned_def)
    show ?thesis
      using Pair Inr p2 f2(1) f3
      by (auto simp: applyH_def frame_refl split: option.splits sum.splits)
  qed
qed


subsection \<open>The store and the snapshot values\<close>

text \<open>\<open>wfSnap h s\<close>: \<open>s\<close> points to a snapshot whose map and validator set exist and whose
  log is a slice of non-nil pointers inside its backing array. \<open>absSnap h s\<close> is the
  snapshot value the store holds at \<open>s\<close>.\<close>

definition wfSlice :: "heap \<Rightarrow> slice \<Rightarrow> bool" where
  "wfSlice h sl =
     (sliceLen sl \<le> sliceCap sl \<and> sliceCap sl \<le> length (cellsOf h sl) \<and>
      None \<notin> set (take (sliceLen sl) (cellsOf h sl)))"

definition wfSnap :: "heap \<Rightarrow> ref \<Rightarrow> bool" where
  "wfSnap h s =
     (case snapshots h s of
        None \<Rightarrow> False
      | Some obj \<Rightarrow>
          valsets h (objValSet obj) \<noteq> None \<and> tallies h (objTally obj) \<noteq> None \<and>
          wfSlice h (objVotes obj))"

definition votesOf :: "heap \<Rightarrow> slice \<Rightarrow> vote list" where
  "votesOf h sl = map the (take (sliceLen sl) (cellsOf h sl))"

definition absObj :: "heap \<Rightarrow> snapshotObj \<Rightarrow> snapshot" where
  "absObj h obj =
     \<lparr>Epoch = objEpoch obj, Number = objNumber obj, Hash = objHash obj,
      Votes = votesOf h (objVotes obj),
      Tally = (case tallies h (objTally obj) of None \<Rightarrow> Map.empty | Some m \<Rightarrow> m),
      ValSet = (case valsets h (objValSet obj) of
                  None \<Rightarrow> \<lparr>members = {}, policyId = 0\<rparr> | Some V \<Rightarrow> V)\<rparr>"

definition absSnap :: "heap \<Rightarrow> ref \<Rightarrow> snapshot" where
  "absSnap h s = absObj h (the (snapshots h s))"

lemma wfSnapE:
  assumes "wfSnap h s"
  obtains obj V m where "snapshots h s = Some obj" "valsets h (objValSet obj) = Some V"
    "tallies h (objTally obj) = Some m" "wfSlice h (objVotes obj)"
    "absSnap h s = \<lparr>Epoch = objEpoch obj, Number = objNumber obj, Hash = objHash obj,
        Votes = votesOf h (objVotes obj), Tally = m, ValSet = V\<rparr>"
  using assms
  by (cases "snapshots h s") (auto simp: wfSnap_def absSnap_def absObj_def)

lemma wfSlice_arrays_cong:
  "arrays h' (sliceBase sl) = arrays h (sliceBase sl) \<Longrightarrow> wfSlice h' sl = wfSlice h sl"
  by (simp add: wfSlice_def cellsOf_def)

lemma votesOf_arrays_cong:
  "arrays h' (sliceBase sl) = arrays h (sliceBase sl) \<Longrightarrow> votesOf h' sl = votesOf h sl"
  by (simp add: votesOf_def cellsOf_def)

lemma tally_update_sim:
  assumes "wfSnap h s" "snapshots h s = Some obj"
  shows "wfSnap (h\<lparr>tallies := (tallies h)(objTally obj \<mapsto> m')\<rparr>) s \<and>
         absSnap (h\<lparr>tallies := (tallies h)(objTally obj \<mapsto> m')\<rparr>) s =
           (absSnap h s)\<lparr>Tally := m'\<rparr>"
  using assms
  by (simp add: wfSnap_def absSnap_def absObj_def
      wfSlice_arrays_cong [of "h\<lparr>tallies := (tallies h)(objTally obj \<mapsto> m')\<rparr>" _ h]
      votesOf_arrays_cong [of "h\<lparr>tallies := (tallies h)(objTally obj \<mapsto> m')\<rparr>" _ h])

lemma valset_update_sim:
  assumes "wfSnap h s" "snapshots h s = Some obj"
  shows "wfSnap (h\<lparr>valsets := (valsets h)(objValSet obj \<mapsto> V')\<rparr>) s \<and>
         absSnap (h\<lparr>valsets := (valsets h)(objValSet obj \<mapsto> V')\<rparr>) s =
           (absSnap h s)\<lparr>ValSet := V'\<rparr>"
  using assms
  by (simp add: wfSnap_def absSnap_def absObj_def
      wfSlice_arrays_cong [of "h\<lparr>valsets := (valsets h)(objValSet obj \<mapsto> V')\<rparr>" _ h]
      votesOf_arrays_cong [of "h\<lparr>valsets := (valsets h)(objValSet obj \<mapsto> V')\<rparr>" _ h])

lemma uncastH_sim:
  assumes "wfSnap h s"
  shows "snd (uncastH h s a b) = Inr (snd (uncast (absSnap h s) a b)) \<and>
         wfSnap (fst (uncastH h s a b)) s \<and>
         absSnap (fst (uncastH h s a b)) s = fst (uncast (absSnap h s) a b)"
proof -
  from assms obtain obj V m where o: "snapshots h s = Some obj"
    "valsets h (objValSet obj) = Some V" "tallies h (objTally obj) = Some m"
    "wfSlice h (objVotes obj)"
    and ab: "absSnap h s = \<lparr>Epoch = objEpoch obj, Number = objNumber obj,
        Hash = objHash obj, Votes = votesOf h (objVotes obj), Tally = m, ValSet = V\<rparr>"
    by (rule wfSnapE)
  have T: "Tally (absSnap h s) = m" by (simp add: ab)
  note u = tally_update_sim [OF assms o(1)]
  show ?thesis
  proof (cases "m a")
    case None
    then show ?thesis using assms o(1,3) T by (simp add: uncastH_def uncast_def)
  next
    case (Some e)
    then show ?thesis using assms o(1,3) T u
      by (simp add: uncastH_def uncast_def)
  qed
qed

lemma castH_sim:
  assumes "wfSnap h s"
  shows "snd (castH h s a b) = Inr (snd (cast (absSnap h s) a b)) \<and>
         wfSnap (fst (castH h s a b)) s \<and>
         absSnap (fst (castH h s a b)) s = fst (cast (absSnap h s) a b)"
proof -
  from assms obtain obj V m where o: "snapshots h s = Some obj"
    "valsets h (objValSet obj) = Some V" "tallies h (objTally obj) = Some m"
    "wfSlice h (objVotes obj)"
    and ab: "absSnap h s = \<lparr>Epoch = objEpoch obj, Number = objNumber obj,
        Hash = objHash obj, Votes = votesOf h (objVotes obj), Tally = m, ValSet = V\<rparr>"
    by (rule wfSnapE)
  have T: "Tally (absSnap h s) = m" "ValSet (absSnap h s) = V" by (simp_all add: ab)
  have cv: "checkVoteH h s a b = Inr (checkVote (absSnap h s) a b)"
    using o(1,2) T by (simp add: checkVoteH_def checkVote_def Let_def)
  note u = tally_update_sim [OF assms o(1)]
  show ?thesis
  proof (cases "checkVote (absSnap h s) a b")
    case False
    then show ?thesis using assms cv by (simp add: castH_def cast_def)
  next
    case True
    then show ?thesis using assms cv o(1,3) T u
      by (cases "m a") (simp_all add: castH_def cast_def)
  qed
qed


lemma moved_cells:
  assumes "i < n" "n \<le> length cs"
  shows "length (take i cs @ take (n - (i + 1)) (drop (i + 1) cs) @ drop (n - 1) cs) =
           length cs"
    and "take (n - 1) (take i cs @ take (n - (i + 1)) (drop (i + 1) cs) @ drop (n - 1) cs) =
           deleteAt i (take n cs)"
proof -
  define A where "A = take i cs"
  define B where "B = take (n - (i + 1)) (drop (i + 1) cs)"
  have lA: "length A = i" using assms by (simp add: A_def)
  have lB: "length B = n - (i + 1)" using assms by (simp add: B_def)
  have lAB: "length (A @ B) = n - 1" using assms lA lB by simp
  show "length (take i cs @ take (n - (i + 1)) (drop (i + 1) cs) @ drop (n - 1) cs) =
           length cs"
    unfolding A_def [symmetric] B_def [symmetric] using lA lB assms by simp
  have "take (n - 1) ((A @ B) @ drop (n - 1) cs) = A @ B"
    using lAB by simp
  moreover have "deleteAt i (take n cs) = A @ B"
    using assms by (simp add: deleteAt_def A_def B_def drop_take min_def)
  ultimately show "take (n - 1) (take i cs @ take (n - (i + 1)) (drop (i + 1) cs) @
      drop (n - 1) cs) = deleteAt i (take n cs)"
    unfolding A_def [symmetric] B_def [symmetric] by simp
qed

lemma set_deleteAt: "set (deleteAt i xs) \<subseteq> set xs"
  unfolding deleteAt_def using set_take_subset [of i xs] set_drop_subset [of "i + 1" xs]
  by auto

lemma map_deleteAt: "map f (deleteAt i xs) = deleteAt i (map f xs)"
  by (simp add: deleteAt_def take_map drop_map)

lemma deleteVoteH_sim:
  assumes wf: "wfSnap h s" and i: "i < length (Votes (absSnap h s))"
  shows "snd (deleteVoteH h s i) = Inr () \<and>
         wfSnap (fst (deleteVoteH h s i)) s \<and>
         absSnap (fst (deleteVoteH h s i)) s =
           (absSnap h s)\<lparr>Votes := deleteAt i (Votes (absSnap h s))\<rparr>"
proof -
  from wf obtain obj V m where o: "snapshots h s = Some obj"
    "valsets h (objValSet obj) = Some V" "tallies h (objTally obj) = Some m"
    "wfSlice h (objVotes obj)"
    and ab: "absSnap h s = \<lparr>Epoch = objEpoch obj, Number = objNumber obj,
        Hash = objHash obj, Votes = votesOf h (objVotes obj), Tally = m, ValSet = V\<rparr>"
    by (rule wfSnapE)
  define sl where "sl = objVotes obj"
  define cs where "cs = cellsOf h sl"
  define n where "n = sliceLen sl"
  have w: "n \<le> sliceCap sl" "sliceCap sl \<le> length cs" "None \<notin> set (take n cs)"
    using o(4) by (simp_all add: wfSlice_def sl_def cs_def n_def)
  have nl: "n \<le> length cs" using w by simp
  have il: "i < n" using i nl by (simp add: ab votesOf_def sl_def [symmetric]
        cs_def [symmetric] n_def [symmetric])
  define n' where "n' = n - 1"
  define moved where "moved = take i cs @ take (n - (i + 1)) (drop (i + 1) cs) @ drop (n - 1) cs"
  define obj' where "obj' = obj\<lparr>objVotes := sl\<lparr>sliceLen := n'\<rparr>\<rparr>"
  define h' where "h' = h\<lparr>arrays := (arrays h)(sliceBase sl \<mapsto> moved),
                          snapshots := (snapshots h)(s \<mapsto> obj')\<rparr>"
  have e: "deleteVoteH h s i = (h', Inr ())"
    using o(1)
    by (simp add: deleteVoteH_def deleteAtH_def Let_def h'_def obj'_def n'_def moved_def
        sl_def cs_def n_def)
  note mv = moved_cells [OF il nl, folded moved_def n'_def]
  have c': "cellsOf h' (sl\<lparr>sliceLen := n'\<rparr>) = moved"
    by (simp add: cellsOf_def h'_def)
  have "set (take n' moved) \<subseteq> set (take n cs)"
    unfolding mv(2) by (rule set_deleteAt)
  then have nn: "None \<notin> set (take n' moved)" using w(3) by blast
  have "n' \<le> sliceCap sl" using w(1) by (simp add: n'_def)
  then have ws: "wfSlice h' (sl\<lparr>sliceLen := n'\<rparr>)"
    using w(2) nn by (simp add: wfSlice_def c' mv(1))
  have "map the (take n' moved) = deleteAt i (map the (take n cs))"
    unfolding mv(2) by (rule map_deleteAt)
  then have vs: "votesOf h' (sl\<lparr>sliceLen := n'\<rparr>) = deleteAt i (votesOf h sl)"
    by (simp add: votesOf_def c' cs_def [symmetric] n_def [symmetric])
  have s': "snapshots h' s = Some obj'" by (simp add: h'_def)
  have t': "tallies h' = tallies h" "valsets h' = valsets h" by (simp_all add: h'_def)
  have "wfSnap h' s" using o(2,3) ws by (simp add: wfSnap_def s' t') (simp add: obj'_def)
  moreover have "absSnap h' s = (absSnap h s)\<lparr>Votes := deleteAt i (Votes (absSnap h s))\<rparr>"
  proof -
    have "absSnap h' s = absObj h' obj'" by (simp add: absSnap_def s')
    also have "\<dots> = \<lparr>Epoch = objEpoch obj, Number = objNumber obj,
        Hash = objHash obj, Votes = deleteAt i (votesOf h sl), Tally = m, ValSet = V\<rparr>"
      using o(2,3) vs by (simp add: absObj_def t') (simp add: obj'_def)
    finally show ?thesis by (simp add: ab sl_def)
  qed
  ultimately show ?thesis by (simp add: e)
qed


lemma absSnap_reads:
  assumes wf: "wfSnap h s" and o: "snapshots h s = Some obj"
  shows "lenVotes h s = length (Votes (absSnap h s))"
    and "sliceLen (objVotes obj) = length (Votes (absSnap h s))"
    and "i < length (Votes (absSnap h s)) \<Longrightarrow>
           cellAt h (objVotes obj) i = Some (Votes (absSnap h s) ! i)"
proof -
  have w: "sliceLen (objVotes obj) \<le> length (cellsOf h (objVotes obj))"
    "None \<notin> set (take (sliceLen (objVotes obj)) (cellsOf h (objVotes obj)))"
    using wf o by (simp_all add: wfSnap_def wfSlice_def)
  have V: "Votes (absSnap h s) =
           map the (take (sliceLen (objVotes obj)) (cellsOf h (objVotes obj)))"
    using o by (simp add: absSnap_def absObj_def votesOf_def)
  show l: "sliceLen (objVotes obj) = length (Votes (absSnap h s))"
    using w(1) by (simp add: V)
  then show "lenVotes h s = length (Votes (absSnap h s))"
    using o by (simp add: lenVotes_def)
  assume i: "i < length (Votes (absSnap h s))"
  then have il: "i < sliceLen (objVotes obj)" using l by simp
  then have "take (sliceLen (objVotes obj)) (cellsOf h (objVotes obj)) ! i \<noteq> None"
    using w by (metis length_take min.absorb2 nth_mem)
  then have "cellsOf h (objVotes obj) ! i \<noteq> None" using il by simp
  then obtain c where c: "cellsOf h (objVotes obj) ! i = Some c" by (auto simp only: not_None_eq)
  have "Votes (absSnap h s) ! i = c" using il w(1) c by (simp add: V)
  then show "cellAt h (objVotes obj) i = Some (Votes (absSnap h s) ! i)"
    using il w(1) c by (simp add: cellAt_def)
qed

lemma remove_sim:
  assumes wf: "wfSnap h s" and i: "i < length (Votes (absSnap h s))"
  shows "snd (deleteVoteH (fst (uncastH h s a b)) s i) = Inr () \<and>
         wfSnap (fst (deleteVoteH (fst (uncastH h s a b)) s i)) s \<and>
         absSnap (fst (deleteVoteH (fst (uncastH h s a b)) s i)) s =
           (fst (uncast (absSnap h s) a b))\<lparr>Votes := deleteAt i (Votes (absSnap h s))\<rparr>"
proof -
  note u = uncastH_sim [OF wf, of a b]
  have "i < length (Votes (absSnap (fst (uncastH h s a b)) s))"
    using u i by (simp add: Votes_uncast)
  from deleteVoteH_sim [OF u [THEN conjunct2, THEN conjunct1] this]
  show ?thesis using u by (simp add: Votes_uncast)
qed

lemma discardPreviousH_sim:
  "wfSnap h s \<Longrightarrow> snapshots h s = Some obj \<Longrightarrow> sl = objVotes obj \<Longrightarrow>
   snd (discardPreviousH h s sl v a i) = Inr () \<and>
   wfSnap (fst (discardPreviousH h s sl v a i)) s \<and>
   absSnap (fst (discardPreviousH h s sl v a i)) s = discardPrevious (absSnap h s) v a i"
proof (induction h s sl v a i rule: discardPreviousH.induct)
  case (1 h s sl validator target i)
  note r = absSnap_reads [OF 1(2,3)]
  show ?case
  proof (cases "i < length (Votes (absSnap h s))")
    case False
    then have "discardPreviousH h s sl validator target i = (h, Inr ())"
      using r(2) 1(4) by (subst discardPreviousH.simps) simp
    moreover have "discardPrevious (absSnap h s) validator target i = absSnap h s"
      using False by (subst discardPrevious.simps) simp
    ultimately show ?thesis using 1(2) by simp
  next
    case lt: True
    define vote where "vote = Votes (absSnap h s) ! i"
    have c: "cellAt h sl i = Some vote" using r(3) [OF lt] 1(4) by (simp add: vote_def)
    have lt': "i < sliceLen sl" using lt r(2) 1(4) by simp
    show ?thesis
    proof (cases "Validator vote = validator \<and> Address vote = target")
      case False
      then have e: "discardPreviousH h s sl validator target i =
                    discardPreviousH h s sl validator target (i + 1)"
        using lt' c by (subst discardPreviousH.simps) auto
      have e': "discardPrevious (absSnap h s) validator target i =
                discardPrevious (absSnap h s) validator target (i + 1)"
        using lt False by (subst discardPrevious.simps) (auto simp: vote_def)
      show ?thesis unfolding e e' using 1(1) [OF lt' c False 1(2,3,4)] .
    next
      case True
      define u where "u = uncastH h s (Address vote) (Authorize vote)"
      have us: "snd u = Inr (snd (uncast (absSnap h s) (Address vote) (Authorize vote)))"
        using uncastH_sim [OF 1(2)] by (simp add: u_def)
      obtain h1 ok where p: "u = (h1, Inr ok)" using us by (cases u) auto
      have "discardPreviousH h s sl validator target i =
              (case u of (h1, Inl err) \<Rightarrow> (h1, Inl err)
               | (h1, Inr ok) \<Rightarrow> deleteVoteH h1 s i)"
        unfolding u_def
        by (subst discardPreviousH.simps) (simp add: lt' c True)
      then have e: "discardPreviousH h s sl validator target i = deleteVoteH (fst u) s i"
        unfolding p by simp
      have e': "discardPrevious (absSnap h s) validator target i =
          (fst (uncast (absSnap h s) (Address vote) (Authorize vote)))
            \<lparr>Votes := deleteAt i (Votes (absSnap h s))\<rparr>"
        using lt True
        by (subst discardPrevious.simps) (simp add: vote_def Let_def Votes_uncast)
      show ?thesis unfolding e e' u_def by (rule remove_sim [OF 1(2) lt])
    qed
  qed
qed


lemma discardVotesByH_sim:
  "wfSnap h s \<Longrightarrow>
   snd (discardVotesByH h s a i) = Inr () \<and>
   wfSnap (fst (discardVotesByH h s a i)) s \<and>
   absSnap (fst (discardVotesByH h s a i)) s = discardVotesBy (absSnap h s) a i"
proof (induction h s a i rule: discardVotesByH.induct)
  case (1 h s a i)
  obtain obj where o: "snapshots h s = Some obj"
    using 1(3) by (cases "snapshots h s") (simp_all add: wfSnap_def)
  note r = absSnap_reads [OF 1(3) o]
  show ?case
  proof (cases "i < length (Votes (absSnap h s))")
    case False
    then have "discardVotesByH h s a i = (h, Inr ())"
      using r(1) o by (subst discardVotesByH.simps) simp
    moreover have "discardVotesBy (absSnap h s) a i = absSnap h s"
      using False by (subst discardVotesBy.simps) simp
    ultimately show ?thesis using 1(3) by simp
  next
    case lt: True
    define vote where "vote = Votes (absSnap h s) ! i"
    have c: "cellAt h (objVotes obj) i = Some vote" using r(3) [OF lt] by (simp add: vote_def)
    have lt': "i < lenVotes h s" using lt r(1) by simp
    show ?thesis
    proof (cases "Validator vote = a")
      case False
      then have e: "discardVotesByH h s a i = discardVotesByH h s a (i + 1)"
        using lt' c o by (subst discardVotesByH.simps) simp
      have e': "discardVotesBy (absSnap h s) a i = discardVotesBy (absSnap h s) a (i + 1)"
        using lt False by (subst discardVotesBy.simps) (simp add: vote_def)
      show ?thesis unfolding e e' using 1(2) [OF o lt' c False 1(3)] .
    next
      case True
      define u where "u = uncastH h s (Address vote) (Authorize vote)"
      define h' where "h' = fst (deleteVoteH (fst u) s i)"
      have us: "snd u = Inr (snd (uncast (absSnap h s) (Address vote) (Authorize vote)))"
        using uncastH_sim [OF 1(3)] by (simp add: u_def)
      have rs: "wfSnap h' s"
        "absSnap h' s = (fst (uncast (absSnap h s) (Address vote) (Authorize vote)))
            \<lparr>Votes := deleteAt i (Votes (absSnap h s))\<rparr>"
        using remove_sim [OF 1(3) lt, of "Address vote" "Authorize vote"]
        by (simp_all add: h'_def u_def)
      have e: "discardVotesByH h s a i = discardVotesByH h' s a i"
        using lt' c o True us
        by (subst discardVotesByH.simps) (simp add: u_def [symmetric] h'_def [symmetric])
      have e': "discardVotesBy (absSnap h s) a i =
          discardVotesBy ((fst (uncast (absSnap h s) (Address vote) (Authorize vote)))
            \<lparr>Votes := deleteAt i (Votes (absSnap h s))\<rparr>) a i"
        using lt True by (subst discardVotesBy.simps) (simp add: vote_def)
      have "snd (discardVotesByH h' s a i) = Inr () \<and>
            wfSnap (fst (discardVotesByH h' s a i)) s \<and>
            absSnap (fst (discardVotesByH h' s a i)) s = discardVotesBy (absSnap h' s) a i"
        using 1(1) [OF o lt' c True us [unfolded u_def]] rs(1)
        by (simp add: h'_def u_def)
      then show ?thesis unfolding e e' rs(2) .
    qed
  qed
qed

lemma discardVotesOnH_sim:
  "wfSnap h s \<Longrightarrow>
   snd (discardVotesOnH h s a i) = Inr () \<and>
   wfSnap (fst (discardVotesOnH h s a i)) s \<and>
   absSnap (fst (discardVotesOnH h s a i)) s = discardVotesOn (absSnap h s) a i"
proof (induction h s a i rule: discardVotesOnH.induct)
  case (1 h s a i)
  obtain obj where o: "snapshots h s = Some obj"
    using 1(3) by (cases "snapshots h s") (simp_all add: wfSnap_def)
  note r = absSnap_reads [OF 1(3) o]
  show ?case
  proof (cases "i < length (Votes (absSnap h s))")
    case False
    then have "discardVotesOnH h s a i = (h, Inr ())"
      using r(1) o by (subst discardVotesOnH.simps) simp
    moreover have "discardVotesOn (absSnap h s) a i = absSnap h s"
      using False by (subst discardVotesOn.simps) simp
    ultimately show ?thesis using 1(3) by simp
  next
    case lt: True
    define vote where "vote = Votes (absSnap h s) ! i"
    have c: "cellAt h (objVotes obj) i = Some vote" using r(3) [OF lt] by (simp add: vote_def)
    have lt': "i < lenVotes h s" using lt r(1) by simp
    show ?thesis
    proof (cases "Address vote = a")
      case False
      then have e: "discardVotesOnH h s a i = discardVotesOnH h s a (i + 1)"
        using lt' c o by (subst discardVotesOnH.simps) simp
      have e': "discardVotesOn (absSnap h s) a i = discardVotesOn (absSnap h s) a (i + 1)"
        using lt False by (subst discardVotesOn.simps) (simp add: vote_def)
      show ?thesis unfolding e e' using 1(2) [OF o lt' c False 1(3)] .
    next
      case True
      define h' where "h' = fst (deleteVoteH h s i)"
      have rs: "wfSnap h' s"
        "absSnap h' s = (absSnap h s)\<lparr>Votes := deleteAt i (Votes (absSnap h s))\<rparr>"
        using deleteVoteH_sim [OF 1(3) lt] by (simp_all add: h'_def)
      have e: "discardVotesOnH h s a i = discardVotesOnH h' s a i"
        using lt' c o True
        by (subst discardVotesOnH.simps) (simp add: h'_def [symmetric])
      have e': "discardVotesOn (absSnap h s) a i =
          discardVotesOn ((absSnap h s)\<lparr>Votes := deleteAt i (Votes (absSnap h s))\<rparr>) a i"
        using lt True by (subst discardVotesOn.simps) (simp add: vote_def)
      have "snd (discardVotesOnH h' s a i) = Inr () \<and>
            wfSnap (fst (discardVotesOnH h' s a i)) s \<and>
            absSnap (fst (discardVotesOnH h' s a i)) s = discardVotesOn (absSnap h' s) a i"
        using 1(1) [OF o lt' c True] rs(1) by (simp add: h'_def)
      then show ?thesis unfolding e e' rs(2) .
    qed
  qed
qed


lemma appendH_sim:
  assumes w: "wfSlice h sl" and a: "appendH G h sl v = (h', sl')"
  shows "wfSlice h' sl' \<and> votesOf h' sl' = votesOf h sl @ [v] \<and>
         tallies h' = tallies h \<and> valsets h' = valsets h \<and> snapshots h' = snapshots h"
proof -
  define cs where "cs = cellsOf h sl"
  define n where "n = sliceLen sl"
  have wf: "n \<le> sliceCap sl" "sliceCap sl \<le> length cs" "None \<notin> set (take n cs)"
    using w by (simp_all add: wfSlice_def cs_def n_def)
  have nl: "n \<le> length cs" using wf by simp
  show ?thesis
  proof (cases "n < sliceCap sl")
    case True
    then have h': "h' = h\<lparr>arrays := (arrays h)(sliceBase sl \<mapsto> cs[n := Some v])\<rparr>"
      and sl': "sl' = sl\<lparr>sliceLen := n + 1\<rparr>"
      using a by (simp_all add: appendH_def cs_def n_def)
    have c': "cellsOf h' sl' = cs[n := Some v]" by (simp add: cellsOf_def h' sl')
    have nl': "n < length cs" using True wf(2) by simp
    have tk: "take (Suc n) (cs[n := Some v]) = take n cs @ [Some v]"
      using nl' by (simp add: take_Suc_conv_app_nth)
    have "wfSlice h' sl'"
      using True wf nl' unfolding wfSlice_def c' by (simp add: sl' tk)
    moreover have "votesOf h' sl' = votesOf h sl @ [v]"
      unfolding votesOf_def c' cs_def [symmetric] by (simp add: sl' tk n_def [symmetric])
    ultimately show ?thesis by (simp add: h')
  next
    case False
    define cells where "cells = take n cs @ [Some v] @ replicate (G (sliceCap sl)) None"
    have h': "h' = h\<lparr>arrays := (arrays h)(nextRef h \<mapsto> cells), nextRef := nextRef h + 1\<rparr>"
      and sl': "sl' = \<lparr>sliceBase = nextRef h, sliceLen = n + 1,
                       sliceCap = n + 1 + G (sliceCap sl)\<rparr>"
      using a False by (simp_all add: appendH_def cs_def n_def cells_def)
    have c': "cellsOf h' sl' = cells" by (simp add: cellsOf_def h' sl')
    have tk: "take (Suc n) cells = take n cs @ [Some v]"
      using nl by (simp add: cells_def)
    have len: "length cells = n + 1 + G (sliceCap sl)" using nl by (simp add: cells_def)
    have "wfSlice h' sl'"
      using wf(3) unfolding wfSlice_def c' by (simp add: sl' tk len)
    moreover have "votesOf h' sl' = votesOf h sl @ [v]"
      unfolding votesOf_def c' cs_def [symmetric] by (simp add: sl' tk n_def [symmetric])
    ultimately show ?thesis by (simp add: h')
  qed
qed

lemma castVoteH_sim:
  assumes wf: "wfSnap h s"
  shows "snd (castVoteH G h s v k a b) = Inr () \<and>
         wfSnap (fst (castVoteH G h s v k a b)) s \<and>
         absSnap (fst (castVoteH G h s v k a b)) s = castVote (absSnap h s) v k a b"
proof -
  define c where "c = castH h s a b"
  define h1 where "h1 = fst c"
  note cs = castH_sim [OF wf, of a b, folded c_def, folded h1_def]
  have cp: "c = (h1, Inr (snd (cast (absSnap h s) a b)))"
    using cs by (cases c) (simp add: h1_def)
  show ?thesis
  proof (cases "snd (cast (absSnap h s) a b)")
    case False
    then have "castVoteH G h s v k a b = (h1, Inr ())"
      using cp by (simp add: castVoteH_def c_def [symmetric])
    moreover have "castVote (absSnap h s) v k a b = fst (cast (absSnap h s) a b)"
      using False by (cases "cast (absSnap h s) a b") (simp add: castVote_def)
    ultimately show ?thesis using cs by simp
  next
    case True
    from cs obtain obj V m where o: "snapshots h1 s = Some obj"
      "valsets h1 (objValSet obj) = Some V" "tallies h1 (objTally obj) = Some m"
      "wfSlice h1 (objVotes obj)"
      and ab: "absSnap h1 s = \<lparr>Epoch = objEpoch obj, Number = objNumber obj,
        Hash = objHash obj, Votes = votesOf h1 (objVotes obj), Tally = m, ValSet = V\<rparr>"
      by (elim conjE wfSnapE)
    define nv where "nv = \<lparr>Validator = v, Block = k, Address = a, Authorize = b\<rparr>"
    obtain h2 sl where ap: "appendH G h1 (objVotes obj) nv = (h2, sl)"
      by (cases "appendH G h1 (objVotes obj) nv") auto
    note as = appendH_sim [OF o(4) ap]
    define h3 where "h3 = h2\<lparr>snapshots := (snapshots h2)(s \<mapsto> obj\<lparr>objVotes := sl\<rparr>)\<rparr>"
    have e: "castVoteH G h s v k a b = (h3, Inr ())"
      using cp True o(1) ap
      by (simp add: castVoteH_def c_def [symmetric] nv_def [symmetric] h3_def)
    have e': "castVote (absSnap h s) v k a b =
        (absSnap h1 s)\<lparr>Votes := Votes (absSnap h1 s) @ [nv]\<rparr>"
      using True cs by (cases "cast (absSnap h s) a b") (simp add: castVote_def nv_def)
    have ws: "wfSlice h3 sl = wfSlice h2 sl" "votesOf h3 sl = votesOf h2 sl"
      by (simp_all add: h3_def wfSlice_def votesOf_def cellsOf_def)
    have "wfSnap h3 s"
      using as o(2,3) ws by (simp add: wfSnap_def) (simp add: h3_def)
    moreover have "absSnap h3 s = (absSnap h1 s)\<lparr>Votes := Votes (absSnap h1 s) @ [nv]\<rparr>"
    proof -
      have "absSnap h3 s = absObj h3 (obj\<lparr>objVotes := sl\<rparr>)"
        by (simp add: absSnap_def h3_def)
      also have "\<dots> = \<lparr>Epoch = objEpoch obj, Number = objNumber obj,
        Hash = objHash obj, Votes = votesOf h1 (objVotes obj) @ [nv], Tally = m, ValSet = V\<rparr>"
        using as o(2,3) ws by (simp add: absObj_def) (simp add: h3_def)
      finally show ?thesis by (simp add: ab)
    qed
    ultimately show ?thesis by (simp add: e e')
  qed
qed


lemma wfSnap_tallyD:
  "wfSnap h s \<Longrightarrow> snapshots h s = Some obj \<Longrightarrow>
   tallies h (objTally obj) = Some (Tally (absSnap h s)) \<and>
   valsets h (objValSet obj) = Some (ValSet (absSnap h s))"
  by (auto simp: wfSnap_def absSnap_def absObj_def)

lemma resolveH_sim:
  assumes wf: "wfSnap h s"
  shows "snd (resolveH h s a) = Inr () \<and> wfSnap (fst (resolveH h s a)) s \<and>
         absSnap (fst (resolveH h s a)) s = resolve (absSnap h s) a"
proof -
  obtain obj where o: "snapshots h s = Some obj"
    using wf by (cases "snapshots h s") (simp_all add: wfSnap_def)
  define c where "c = absSnap h s"
  note tv = wfSnap_tallyD [OF wf o, folded c_def]
  have t: "(case tallies h (objTally obj) of
              None \<Rightarrow> \<lparr>TallyAuthorize = False, TallyVotes = 0\<rparr>
            | Some m \<Rightarrow> (case m a of
                          None \<Rightarrow> \<lparr>TallyAuthorize = False, TallyVotes = 0\<rparr>
                        | Some e \<Rightarrow> e)) = tallyOf c a"
    using tv by (simp add: tallyOf_def)
  show ?thesis
  proof (cases "TallyVotes (tallyOf c a) > Size (ValSet c) div 2")
    case False
    then show ?thesis using wf o tv t
      by (simp add: resolveH_def resolve_def c_def [symmetric])
  next
    case True
    define V' where "V' = (if TallyAuthorize (tallyOf c a) then AddValidator (ValSet c) a
                           else RemoveValidator (ValSet c) a)"
    define hv where "hv = h\<lparr>valsets := (valsets h)(objValSet obj \<mapsto> V')\<rparr>"
    have hv: "wfSnap hv s" "absSnap hv s = c\<lparr>ValSet := V'\<rparr>" "snapshots hv s = Some obj"
      using valset_update_sim [OF wf o, of V'] o by (simp_all add: hv_def c_def)
    define r1 where "r1 = (if TallyAuthorize (tallyOf c a) then (hv, Inr ())
                           else discardVotesByH hv s a 0)"
    define c1 where "c1 = (if TallyAuthorize (tallyOf c a)
                           then c\<lparr>ValSet := AddValidator (ValSet c) a\<rparr>
                           else discardVotesBy (c\<lparr>ValSet := RemoveValidator (ValSet c) a\<rparr>) a 0)"
    have r1: "snd r1 = Inr ()" "wfSnap (fst r1) s" "absSnap (fst r1) s = c1"
      using hv discardVotesByH_sim [OF hv(1), of a 0]
      by (simp_all add: r1_def c1_def V'_def)
    have r1o: "\<exists>obj'. snapshots (fst r1) s = Some obj' \<and> objTally obj' = objTally obj"
      using hv(3) discardVotesByH_objTally [OF hv(3), of a 0]
      by (cases "TallyAuthorize (tallyOf c a)") (simp_all add: r1_def)
    define r2 where "r2 = discardVotesOnH (fst r1) s a 0"
    have r2: "snd r2 = Inr ()" "wfSnap (fst r2) s"
      "absSnap (fst r2) s = discardVotesOn c1 a 0"
      using discardVotesOnH_sim [OF r1(2), of a 0] r1(3) by (simp_all add: r2_def)
    obtain obj2 where o2: "snapshots (fst r2) s = Some obj2" "objTally obj2 = objTally obj"
      using r1o discardVotesOnH_objTally [of "fst r1" s _ a 0] unfolding r2_def by metis
    note tv2 = wfSnap_tallyD [OF r2(2) o2(1), unfolded o2(2)]
    define h3 where "h3 = (fst r2)\<lparr>tallies := (tallies (fst r2))(objTally obj \<mapsto>
                             (Tally (absSnap (fst r2) s))(a := None))\<rparr>"
    have h3: "wfSnap h3 s"
      "absSnap h3 s = (absSnap (fst r2) s)\<lparr>Tally := (Tally (absSnap (fst r2) s))(a := None)\<rparr>"
      using tally_update_sim [OF r2(2) o2(1), of "(Tally (absSnap (fst r2) s))(a := None)"]
      by (simp_all add: h3_def o2(2))
    have p1: "r1 = (fst r1, Inr ())" using r1(1) by (cases r1) simp
    have p2: "discardVotesOnH (fst r1) s a 0 = (fst r2, Inr ())"
      using r2(1) by (cases r2) (simp add: r2_def)
    have e: "resolveH h s a = (h3, Inr ())"
    proof (cases "TallyAuthorize (tallyOf c a)")
      case au: True
      then have f1: "fst r1 = h\<lparr>valsets := (valsets h)(objValSet obj \<mapsto>
                                 AddValidator (ValSet c) a)\<rparr>"
        by (simp add: r1_def hv_def V'_def)
      show ?thesis
        using o tv t True au p2 [unfolded f1] tv2 [unfolded f1]
        by (simp add: resolveH_def c_def [symmetric] h3_def f1)
    next
      case au: False
      then have f1: "discardVotesByH (h\<lparr>valsets := (valsets h)(objValSet obj \<mapsto>
                                 RemoveValidator (ValSet c) a)\<rparr>) s a 0 = (fst r1, Inr ())"
        using p1 by (simp add: r1_def hv_def V'_def)
      show ?thesis
        using o tv t True au f1 p2 tv2
        by (simp add: resolveH_def c_def [symmetric] h3_def)
    qed
    have e': "resolve c a =
        (discardVotesOn c1 a 0)\<lparr>Tally := (Tally (discardVotesOn c1 a 0))(a := None)\<rparr>"
      using True by (simp add: resolve_def Let_def c1_def)
    show ?thesis using h3 r2(3) by (simp add: e e' c_def [symmetric])
  qed
qed


lemma checkpointH_sim:
  assumes wf: "wfSnap h s" and o: "snapshots h s = Some obj"
  shows "wfSnap (checkpointH h s obj n) s \<and>
         absSnap (checkpointH h s obj n) s = checkpoint (absSnap h s) n"
proof (cases "n mod objEpoch obj = 0")
  case False
  then show ?thesis using wf o
    by (simp add: checkpointH_def checkpoint_def absSnap_def absObj_def)
next
  case True
  define h' where "h' = h\<lparr>tallies := (tallies h)(nextRef h \<mapsto> Map.empty),
             snapshots := (snapshots h)(s \<mapsto> obj\<lparr>objVotes := nilSlice,
                                                  objTally := nextRef h\<rparr>),
             nextRef := nextRef h + 1\<rparr>"
  have e: "checkpointH h s obj n = h'" using True by (simp add: checkpointH_def h'_def)
  have v: "valsets h (objValSet obj) \<noteq> None" using wf o by (simp add: wfSnap_def)
  have ns: "wfSlice h' nilSlice" "votesOf h' nilSlice = []"
    by (simp_all add: wfSlice_def votesOf_def nilSlice_def)
  have "wfSnap h' s" using v ns(1) by (simp add: wfSnap_def) (simp add: h'_def)
  moreover have "absSnap h' s = checkpoint (absSnap h s) n"
  proof -
    have "absSnap h' s = absObj h' (obj\<lparr>objVotes := nilSlice, objTally := nextRef h\<rparr>)"
      by (simp add: absSnap_def h'_def)
    also have "\<dots> = (absObj h obj)\<lparr>Votes := [], Tally := Map.empty\<rparr>"
      using ns(2) by (simp add: absObj_def) (simp add: h'_def)
    finally show ?thesis using True o by (simp add: checkpoint_def absSnap_def absObj_def)
  qed
  ultimately show ?thesis by (simp add: e)
qed

lemma voteH_sim:
  assumes wf: "wfSnap h s"
  shows "case intent of
           None \<Rightarrow> snd (voteH G h s v k a intent) = Inl errInvalidVote
         | Some b \<Rightarrow>
             snd (voteH G h s v k a intent) = Inr () \<and>
             wfSnap (fst (voteH G h s v k a intent)) s \<and>
             absSnap (fst (voteH G h s v k a intent)) s =
               resolve (castVote (discardPrevious (absSnap h s) v a 0) v k a b) a"
proof -
  obtain obj where o: "snapshots h s = Some obj"
    using wf by (cases "snapshots h s") (simp_all add: wfSnap_def)
  obtain h1 x1 where p1: "discardPreviousH h s (objVotes obj) v a 0 = (h1, x1)"
    by (cases "discardPreviousH h s (objVotes obj) v a 0") auto
  have r1: "x1 = Inr ()" "wfSnap h1 s"
    "absSnap h1 s = discardPrevious (absSnap h s) v a 0"
    using discardPreviousH_sim [OF wf o refl, of v a 0] by (simp_all add: p1)
  show ?thesis
  proof (cases intent)
    case None
    then show ?thesis using o p1 r1(1) by (simp add: voteH_def)
  next
    case (Some b)
    obtain h2 x2 where p2: "castVoteH G h1 s v k a b = (h2, x2)"
      by (cases "castVoteH G h1 s v k a b") auto
    have r2: "x2 = Inr ()" "wfSnap h2 s"
      "absSnap h2 s = castVote (discardPrevious (absSnap h s) v a 0) v k a b"
      using castVoteH_sim [OF r1(2), of G v k a b] r1(3) by (simp_all add: p2)
    have e: "voteH G h s v k a (Some b) = resolveH h2 s a"
      using o p1 r1(1) p2 r2(1) by (simp add: voteH_def)
    show ?thesis using resolveH_sim [OF r2(2), of a] r2(3) Some by (simp add: e)
  qed
qed

lemma authorizedH_sim:
  assumes wf: "wfSnap h s"
  shows "authorizedH h s v =
           (if GetByAddress (ValSet (absSnap h s)) v = None then Inl errUnauthorized
            else Inr ())"
proof -
  obtain obj where o: "snapshots h s = Some obj"
    using wf by (cases "snapshots h s") (simp_all add: wfSnap_def)
  show ?thesis using wfSnap_tallyD [OF wf o] o by (simp add: authorizedH_def)
qed

lemma Epoch_absSnap: "snapshots h s = Some obj \<Longrightarrow> Epoch (absSnap h s) = objEpoch obj"
  by (simp add: absSnap_def absObj_def)

text \<open>The fold of one header on the store does what the fold on values does.\<close>

definition simulates :: "heap \<times> (error + unit) \<Rightarrow> ref \<Rightarrow> error + snapshot \<Rightarrow> bool" where
  "simulates r s v =
     (case v of
        Inl err \<Rightarrow> snd r = Inl err
      | Inr c \<Rightarrow> snd r = Inr () \<and> wfSnap (fst r) s \<and> absSnap (fst r) s = c)"

lemma legacyApplyH_sim:
  assumes wf: "wfSnap h s"
  shows "simulates (legacyApplyH K G h s hdr) s (legacyApply K (absSnap h s) hdr)"
proof -
  obtain obj where o: "snapshots h s = Some obj"
    using wf by (cases "snapshots h s") (simp_all add: wfSnap_def)
  note ep = Epoch_absSnap [OF o]
  show ?thesis
  proof (cases "objEpoch obj = 0")
    case True
    then show ?thesis using o ep by (simp add: simulates_def legacyApplyH_def legacyApply_def)
  next
    case ne: False
    define h0 where "h0 = checkpointH h s obj (HeaderNumber hdr)"
    define c0 where "c0 = checkpoint (absSnap h s) (HeaderNumber hdr)"
    have h0: "wfSnap h0 s" "absSnap h0 s = c0"
      using checkpointH_sim [OF wf o] by (simp_all add: h0_def c0_def)
    show ?thesis
    proof (cases "ecrecoverFromSignedHeader hdr")
      case (Inl err)
      then show ?thesis using o ep ne
        by (simp add: simulates_def legacyApplyH_def legacyApply_def Let_def)
    next
      case (Inr validator)
      show ?thesis
      proof (cases "GetByAddress (ValSet c0) validator = None")
        case True
        then show ?thesis using o ep ne Inr authorizedH_sim [OF h0(1), of validator] h0(2)
          by (simp add: simulates_def legacyApplyH_def legacyApply_def Let_def
              h0_def [symmetric] c0_def [symmetric])
      next
        case False
        define intent where "intent = (if Nonce hdr = nonceAuthVote K then Some True
                         else if Nonce hdr = nonceDropVote K then Some False
                         else None)"
        have au: "authorizedH h0 s validator = Inr ()"
          unfolding authorizedH_sim [OF h0(1)] h0(2) using False by (simp only: if_False)
        have e: "legacyApplyH K G h s hdr =
                   voteH G h0 s validator (HeaderNumber hdr) (Coinbase hdr) intent"
          using o ne Inr au
          by (simp add: legacyApplyH_def Let_def h0_def [symmetric] intent_def)
        have e': "legacyApply K (absSnap h s) hdr =
            (case intent of
               None \<Rightarrow> Inl errInvalidVote
             | Some b \<Rightarrow> Inr (resolve (castVote (discardPrevious c0 validator (Coinbase hdr) 0)
                                     validator (HeaderNumber hdr) (Coinbase hdr) b)
                            (Coinbase hdr)))"
          using ep ne Inr
          by (simp add: legacyApply_def Let_def c0_def [symmetric] intent_def
              False [simplified])
        show ?thesis
          using voteH_sim [OF h0(1), where intent = intent and G = G and v = validator
              and k = "HeaderNumber hdr" and a = "Coinbase hdr"]
          unfolding e e' h0(2) by (cases intent) (simp_all add: simulates_def)
      qed
    qed
  qed
qed


lemma qbftApplyH_sim:
  assumes wf: "wfSnap h s"
  shows "simulates (qbftApplyH K G h s hdr) s (qbftApply K (absSnap h s) hdr)"
proof -
  obtain obj where o: "snapshots h s = Some obj"
    using wf by (cases "snapshots h s") (simp_all add: wfSnap_def)
  note ep = Epoch_absSnap [OF o]
  show ?thesis
  proof (cases "objEpoch obj = 0")
    case True
    then show ?thesis using o ep by (simp add: simulates_def qbftApplyH_def qbftApply_def)
  next
    case ne: False
    define h0 where "h0 = checkpointH h s obj (HeaderNumber hdr)"
    define c0 where "c0 = checkpoint (absSnap h s) (HeaderNumber hdr)"
    have h0: "wfSnap h0 s" "absSnap h0 s = c0"
      using checkpointH_sim [OF wf o] by (simp_all add: h0_def c0_def)
    show ?thesis
    proof (cases "ecrecoverFromCoinbase hdr")
      case (Inl err)
      then show ?thesis using o ep ne
        by (simp add: simulates_def qbftApplyH_def qbftApply_def Let_def)
    next
      case (Inr validator)
      show ?thesis
      proof (cases "GetByAddress (ValSet c0) validator = None")
        case True
        then show ?thesis using o ep ne Inr authorizedH_sim [OF h0(1), of validator] h0(2)
          by (simp add: simulates_def qbftApplyH_def qbftApply_def Let_def
              h0_def [symmetric] c0_def [symmetric])
      next
        case False
        have au: "authorizedH h0 s validator = Inr ()"
          unfolding authorizedH_sim [OF h0(1)] h0(2) using False by (simp only: if_False)
        show ?thesis
        proof (cases "ExtractQbftExtra hdr")
          case (Inl err)
          then show ?thesis using o ep ne Inr au
            by (simp add: simulates_def qbftApplyH_def qbftApply_def Let_def
                h0_def [symmetric] c0_def [symmetric] False [simplified])
        next
          case x: (Inr qbftVote)
          define vv where "vv = (case qbftVote of
                                     None \<Rightarrow> \<lparr>RecipientAddress = 0,
                                              VoteType = QbftDropVote K\<rparr>
                                   | Some v \<Rightarrow> v)"
          define intent where "intent =
            (if VoteType vv = QbftAuthVote K then Some True
             else if VoteType vv = QbftDropVote K then Some False else None)"
          have e: "qbftApplyH K G h s hdr =
                     voteH G h0 s validator (HeaderNumber hdr) (RecipientAddress vv) intent"
            using o ne Inr au x
            by (simp add: qbftApplyH_def Let_def h0_def [symmetric] vv_def [symmetric]
                intent_def)
          have e': "qbftApply K (absSnap h s) hdr =
            (case intent of
               None \<Rightarrow> Inl errInvalidVote
             | Some b \<Rightarrow>
                 Inr (resolve (castVote (discardPrevious c0 validator (RecipientAddress vv) 0)
                                 validator (HeaderNumber hdr) (RecipientAddress vv) b)
                        (RecipientAddress vv)))"
            using ep ne Inr x
            by (simp add: qbftApply_def Let_def c0_def [symmetric] vv_def [symmetric]
                intent_def False [simplified])
          show ?thesis
            using voteH_sim [OF h0(1), where intent = intent and G = G and v = validator
                and k = "HeaderNumber hdr" and a = "RecipientAddress vv"]
            unfolding e e' h0(2) by (cases intent) (simp_all add: simulates_def)
        qed
      qed
    qed
  qed
qed

lemma applyLoopH_sim:
  "wfSnap h s \<Longrightarrow>
   simulates (applyLoopH K G q qb h s headers) s (applyLoop K q qb (absSnap h s) headers)"
proof (induction headers arbitrary: h)
  case Nil
  then show ?case by (simp add: simulates_def)
next
  case (Cons hdr headers)
  define r where "r = (if q \<and> sint (HeaderNumber hdr) > sint qb
            then qbftApplyH K G h s hdr else legacyApplyH K G h s hdr)"
  define c where "c = (if q \<and> sint (HeaderNumber hdr) > sint qb
            then qbftApply K (absSnap h s) hdr else legacyApply K (absSnap h s) hdr)"
  have sim: "simulates r s c"
    unfolding r_def c_def
    using legacyApplyH_sim [OF Cons.prems] qbftApplyH_sim [OF Cons.prems] by simp
  have e: "applyLoopH K G q qb h s (hdr # headers) =
      (case r of (h1, Inl err) \<Rightarrow> (h1, Inl err)
       | (h1, Inr u) \<Rightarrow> applyLoopH K G q qb h1 s headers)"
    by (simp add: r_def)
  have e': "applyLoop K q qb (absSnap h s) (hdr # headers) =
      (case c of Inl err \<Rightarrow> Inl err | Inr snap' \<Rightarrow> applyLoop K q qb snap' headers)"
    by (simp add: c_def)
  obtain h1 x1 where p: "r = (h1, x1)" by (cases r) auto
  show ?case
  proof (cases c)
    case (Inl err)
    then have "x1 = Inl err" using sim p by (simp add: simulates_def)
    then show ?thesis unfolding e e' p using Inl by (simp add: simulates_def)
  next
    case (Inr c1)
    then have s1: "x1 = Inr ()" "wfSnap h1 s" "absSnap h1 s = c1"
      using sim p by (simp_all add: simulates_def)
    show ?thesis unfolding e e' p using Inr s1(1) Cons.IH [OF s1(2)] s1(3) by simp
  qed
qed

lemma copyH_sim:
  assumes wf: "wfSnap h s"
  shows "\<exists>h1 snap. copyH h s = (h1, Inr snap) \<and> wfSnap h1 snap \<and>
           absSnap h1 snap = copy (absSnap h s)"
proof -
  from wf obtain obj V m where o: "snapshots h s = Some obj"
    "valsets h (objValSet obj) = Some V" "tallies h (objTally obj) = Some m"
    "wfSlice h (objVotes obj)"
    and ab: "absSnap h s = \<lparr>Epoch = objEpoch obj, Number = objNumber obj,
        Hash = objHash obj, Votes = votesOf h (objVotes obj), Tally = m, ValSet = V\<rparr>"
    by (rule wfSnapE)
  define n where "n = sliceLen (objVotes obj)"
  define cells where "cells = take n (cellsOf h (objVotes obj))"
  have w: "n \<le> length (cellsOf h (objVotes obj))" "None \<notin> set cells"
    using o(4) by (simp_all add: wfSlice_def n_def cells_def)
  have lc: "length cells = n" using w(1) by (simp add: cells_def)
  define sl where "sl = \<lparr>sliceBase = nextRef h + 1, sliceLen = n, sliceCap = n\<rparr>"
  define obj' where "obj' = \<lparr>objEpoch = objEpoch obj, objNumber = objNumber obj,
                          objHash = objHash obj, objVotes = sl,
                          objTally = nextRef h + 2, objValSet = nextRef h\<rparr>"
  define h1 where "h1 = h\<lparr>valsets := (valsets h)(nextRef h \<mapsto> Copy V),
                      arrays := (arrays h)(nextRef h + 1 \<mapsto> cells),
                      tallies := (tallies h)(nextRef h + 2 \<mapsto> m),
                      snapshots := (snapshots h)(nextRef h + 3 \<mapsto> obj'),
                      nextRef := nextRef h + 4\<rparr>"
  have e: "copyH h s = (h1, Inr (nextRef h + 3))"
    using o(1-3) lc w(1)
    by (simp add: copyH_def Let_def h1_def obj'_def sl_def n_def [symmetric]
        cells_def [symmetric] min_def)
  have c1: "cellsOf h1 sl = cells" by (simp add: cellsOf_def h1_def sl_def)
  have ws: "wfSlice h1 sl" using w(2) lc by (simp add: wfSlice_def c1) (simp add: sl_def)
  have vs: "votesOf h1 sl = votesOf h (objVotes obj)"
    using lc by (simp add: votesOf_def c1) (simp add: sl_def cells_def n_def)
  have s1: "snapshots h1 (nextRef h + 3) = Some obj'" by (simp add: h1_def)
  have t1: "tallies h1 (nextRef h + 2) = Some m" "valsets h1 (nextRef h) = Some (Copy V)"
    by (simp_all add: h1_def)
  have "wfSnap h1 (nextRef h + 3)"
    using ws t1 by (simp add: wfSnap_def s1) (simp add: obj'_def)
  moreover have "absSnap h1 (nextRef h + 3) = copy (absSnap h s)"
  proof -
    have "absSnap h1 (nextRef h + 3) = absObj h1 obj'" by (simp add: absSnap_def s1)
    also have "\<dots> = \<lparr>Epoch = objEpoch obj, Number = objNumber obj,
        Hash = objHash obj, Votes = votesOf h (objVotes obj), Tally = m, ValSet = Copy V\<rparr>"
      using vs t1 by (simp add: absObj_def obj'_def)
    finally show ?thesis by (simp add: ab copy_def)
  qed
  ultimately show ?thesis using e by blast
qed


lemma Number_absSnap: "snapshots h s = Some obj \<Longrightarrow> Number (absSnap h s) = objNumber obj"
  by (simp add: absSnap_def absObj_def)

lemma header_update_sim:
  assumes wf: "wfSnap h p" and o: "snapshots h p = Some c"
  shows "wfSnap (h\<lparr>snapshots := (snapshots h)(p \<mapsto> c\<lparr>objNumber := n, objHash := x\<rparr>)\<rparr>) p \<and>
         absSnap (h\<lparr>snapshots := (snapshots h)(p \<mapsto> c\<lparr>objNumber := n, objHash := x\<rparr>)\<rparr>) p =
           (absSnap h p)\<lparr>Number := n, Hash := x\<rparr>"
  using wf o
  by (simp add: wfSnap_def absSnap_def absObj_def wfSlice_def votesOf_def cellsOf_def)

text \<open>\<open>apply\<close> on the store returns what \<open>apply\<close> on values returns for the value of the
  receiver: the same error, or a pointer to a snapshot with the value computed.\<close>

lemma applyH_sim:
  assumes wf: "wfSnap h s"
  shows "case apply_headers K (absSnap h s) headers q qb of
           Inl err \<Rightarrow> snd (applyH K G h s headers q qb) = Inl err
         | Inr c \<Rightarrow>
             (\<exists>p. snd (applyH K G h s headers q qb) = Inr p \<and>
                  wfSnap (fst (applyH K G h s headers q qb)) p \<and>
                  absSnap (fst (applyH K G h s headers q qb)) p = c)"
proof -
  obtain obj where o: "snapshots h s = Some obj"
    using wf by (cases "snapshots h s") (simp_all add: wfSnap_def)
  note nb = Number_absSnap [OF o]
  show ?thesis
  proof (cases "length headers = 0 \<or> \<not> checkChain headers 0 \<or>
                HeaderNumber (headers ! 0) \<noteq> objNumber obj + 1")
    case True
    then show ?thesis using wf o nb
      by (auto simp: applyH_def apply_headers_def)
  next
    case False
    from copyH_sim [OF wf] obtain h1 snap where cp: "copyH h s = (h1, Inr snap)"
      "wfSnap h1 snap" "absSnap h1 snap = copy (absSnap h s)" by blast
    obtain h2 x2 where lp: "applyLoopH K G q qb h1 snap headers = (h2, x2)"
      by (cases "applyLoopH K G q qb h1 snap headers") auto
    note sim = applyLoopH_sim [OF cp(2), of K G q qb headers, unfolded lp cp(3)]
    show ?thesis
    proof (cases "applyLoop K q qb (copy (absSnap h s)) headers")
      case (Inl err)
      then have "x2 = Inl err" using sim by (simp add: simulates_def)
      then show ?thesis using False o nb cp(1) lp Inl
        by (simp add: applyH_def apply_headers_def)
    next
      case (Inr c)
      then have s2: "x2 = Inr ()" "wfSnap h2 snap" "absSnap h2 snap = c"
        using sim by (simp_all add: simulates_def)
      obtain c2 where o2: "snapshots h2 snap = Some c2"
        using s2(2) by (cases "snapshots h2 snap") (simp_all add: wfSnap_def)
      note hu = header_update_sim [OF s2(2) o2,
          where n = "objNumber c2 + of_nat (length headers)"
            and x = "HeaderHash (headers ! (length headers - 1))"]
      have n2: "Number c = objNumber c2" using Number_absSnap [OF o2] s2(3) by simp
      show ?thesis
        using False o nb cp(1) lp Inr s2(1) o2 hu s2(3) n2
        by (simp add: applyH_def apply_headers_def)
    qed
  qed
qed

text \<open>\<open>allocated h s\<close>: there is a snapshot at \<open>s\<close>, and it and the objects it points to
  were allocated in \<open>h\<close>.\<close>

definition allocated :: "heap \<Rightarrow> ref \<Rightarrow> bool" where
  "allocated h s =
     (s < nextRef h \<and>
      (case snapshots h s of
         None \<Rightarrow> False
       | Some obj \<Rightarrow>
           objTally obj < nextRef h \<and> objValSet obj < nextRef h \<and>
           sliceBase (objVotes obj) < nextRef h))"

lemma frame_absSnap:
  assumes "frame (nextRef h) h h'" "allocated h s"
  shows "absSnap h' s = absSnap h s \<and> wfSnap h' s = wfSnap h s"
proof (cases "snapshots h s")
  case None
  then show ?thesis using assms(2) by (simp add: allocated_def)
next
  case (Some obj)
  then have "snapshots h' s = Some obj" "tallies h' (objTally obj) = tallies h (objTally obj)"
    "valsets h' (objValSet obj) = valsets h (objValSet obj)"
    "arrays h' (sliceBase (objVotes obj)) = arrays h (sliceBase (objVotes obj))"
    using assms by (simp_all add: frame_def allocated_def)
  then show ?thesis using Some
    by (simp add: absSnap_def absObj_def wfSnap_def wfSlice_def votesOf_def cellsOf_def)
qed

subsection \<open>The receiver\<close>

text \<open>The precondition of \<open>apply\<close> in the words of the spec:
  \<open>headers[i+1].number == headers[i].number + 1\<close> for all \<open>i\<close>.\<close>

definition contiguous :: "header list \<Rightarrow> bool" where
  "contiguous headers =
     (\<forall>i. i + 1 < length headers \<longrightarrow>
          HeaderNumber (headers ! (i + 1)) = HeaderNumber (headers ! i) + 1)"

lemma checkChain_iff:
  "checkChain headers i =
     (\<forall>j. i \<le> j \<and> j + 1 < length headers \<longrightarrow>
          HeaderNumber (headers ! (j + 1)) = HeaderNumber (headers ! j) + 1)"
proof (induction headers i rule: checkChain.induct)
  case (1 headers i)
  show ?case
  proof (cases "i + 1 < length headers")
    case False
    then show ?thesis by (subst checkChain.simps) auto
  next
    case lt: True
    show ?thesis
    proof (cases "HeaderNumber (headers ! (i + 1)) \<noteq> HeaderNumber (headers ! i) + 1")
      case True
      then have "\<not> checkChain headers i" using lt by (subst checkChain.simps) simp
      moreover have "\<not> (\<forall>j. i \<le> j \<and> j + 1 < length headers \<longrightarrow>
          HeaderNumber (headers ! (j + 1)) = HeaderNumber (headers ! j) + 1)"
        using True lt by (intro notI) (drule spec [of _ i], simp)
      ultimately show ?thesis by simp
    next
      case False
      then have e: "checkChain headers i = checkChain headers (i + 1)"
        using lt by (subst checkChain.simps) simp
      have "(\<forall>j. i \<le> j \<and> j + 1 < length headers \<longrightarrow>
          HeaderNumber (headers ! (j + 1)) = HeaderNumber (headers ! j) + 1) =
            (\<forall>j. i + 1 \<le> j \<and> j + 1 < length headers \<longrightarrow>
          HeaderNumber (headers ! (j + 1)) = HeaderNumber (headers ! j) + 1)"
      proof
        assume a: "\<forall>j. i + 1 \<le> j \<and> j + 1 < length headers \<longrightarrow>
          HeaderNumber (headers ! (j + 1)) = HeaderNumber (headers ! j) + 1"
        show "\<forall>j. i \<le> j \<and> j + 1 < length headers \<longrightarrow>
          HeaderNumber (headers ! (j + 1)) = HeaderNumber (headers ! j) + 1"
        proof (intro allI impI)
          fix j assume j: "i \<le> j \<and> j + 1 < length headers"
          show "HeaderNumber (headers ! (j + 1)) = HeaderNumber (headers ! j) + 1"
          proof (cases "j = i")
            case True
            then show ?thesis using False by simp
          next
            case False
            then have "i + 1 \<le> j" using j by simp
            then show ?thesis using a j by blast
          qed
        qed
      qed auto
      then show ?thesis using e 1 [OF lt False] by simp
    qed
  qed
qed

lemma checkChain_contiguous: "checkChain headers 0 = contiguous headers"
  by (simp add: checkChain_iff contiguous_def)


lemma applyH_gap_error:
  assumes "headers \<noteq> []" "\<not> contiguous headers"
  shows "applyH K G h s headers q qb = (h, Inl errInvalidVotingChain)"
  using assms by (auto simp: applyH_def checkChain_contiguous)

lemma applyH_start_error:
  assumes "headers \<noteq> []" "snapshots h s = Some obj"
    "HeaderNumber (headers ! 0) \<noteq> objNumber obj + 1"
  shows "applyH K G h s headers q qb = (h, Inl errInvalidVotingChain)"
  using assms by (auto simp: applyH_def checkChain_contiguous)

lemma applyH_fold_error:
  assumes "headers \<noteq> []" "contiguous headers" "snapshots h s = Some obj"
    "HeaderNumber (headers ! 0) = objNumber obj + 1"
    "copyH h s = (h1, Inr snap)" "applyLoopH K G q qb h1 snap headers = (h2, Inl err)"
  shows "applyH K G h s headers q qb = (h2, Inl err)"
  using assms by (simp add: applyH_def checkChain_contiguous)

text \<open>C2. \<open>apply\<close> writes no object that was allocated before the call: every snapshot,
  backing array, map and validator set at a reference below \<open>nextRef\<close> of the store of
  the call is the same after it, whatever the headers and the result; so the value of
  an allocated receiver (its epoch, number, hash, log, tally and validator set) is
  after the call what it was before. On a non-empty list of headers that is not
  contiguous, or whose first number is not the number of the receiver plus one, \<open>apply\<close>
  returns \<open>errInvalidVotingChain\<close> and the store is unchanged; when the fold of a header
  fails, \<open>apply\<close> returns that error and no snapshot. On a well-formed receiver the call
  returns what \<open>apply\<close> on snapshot values returns for the value of the receiver: the
  same error, or a pointer to a snapshot holding the value computed.\<close>

theorem apply_never_mutates_receiver:
  "(\<forall>r. r < nextRef h \<longrightarrow>
      snapshots (fst (applyH K G h s headers q qb)) r = snapshots h r \<and>
      arrays (fst (applyH K G h s headers q qb)) r = arrays h r \<and>
      tallies (fst (applyH K G h s headers q qb)) r = tallies h r \<and>
      valsets (fst (applyH K G h s headers q qb)) r = valsets h r) \<and>
   (allocated h s \<longrightarrow> absSnap (fst (applyH K G h s headers q qb)) s = absSnap h s) \<and>
   (headers \<noteq> [] \<longrightarrow> \<not> contiguous headers \<longrightarrow>
      applyH K G h s headers q qb = (h, Inl errInvalidVotingChain)) \<and>
   (headers \<noteq> [] \<longrightarrow> snapshots h s = Some obj \<longrightarrow>
      HeaderNumber (headers ! 0) \<noteq> objNumber obj + 1 \<longrightarrow>
      applyH K G h s headers q qb = (h, Inl errInvalidVotingChain)) \<and>
   (headers \<noteq> [] \<longrightarrow> contiguous headers \<longrightarrow> snapshots h s = Some obj \<longrightarrow>
      HeaderNumber (headers ! 0) = objNumber obj + 1 \<longrightarrow>
      copyH h s = (h1, Inr snap) \<longrightarrow>
      applyLoopH K G q qb h1 snap headers = (h2, Inl err) \<longrightarrow>
      applyH K G h s headers q qb = (h2, Inl err)) \<and>
   (wfSnap h s \<longrightarrow>
      (case apply_headers K (absSnap h s) headers q qb of
         Inl e \<Rightarrow> snd (applyH K G h s headers q qb) = Inl e
       | Inr c \<Rightarrow>
           (\<exists>p. snd (applyH K G h s headers q qb) = Inr p \<and>
                wfSnap (fst (applyH K G h s headers q qb)) p \<and>
                absSnap (fst (applyH K G h s headers q qb)) p = c)))"
proof (intro conjI allI impI)
  fix r assume "r < nextRef h"
  then show "snapshots (fst (applyH K G h s headers q qb)) r = snapshots h r"
    and "arrays (fst (applyH K G h s headers q qb)) r = arrays h r"
    and "tallies (fst (applyH K G h s headers q qb)) r = tallies h r"
    and "valsets (fst (applyH K G h s headers q qb)) r = valsets h r"
    using applyH_frame [of h K G s headers q qb] by (simp_all add: frame_def)
next
  assume "allocated h s"
  with applyH_frame [of h K G s headers q qb]
  show "absSnap (fst (applyH K G h s headers q qb)) s = absSnap h s"
    by (simp add: frame_absSnap)
next
  assume "headers \<noteq> []" "\<not> contiguous headers"
  then show "applyH K G h s headers q qb = (h, Inl errInvalidVotingChain)"
    by (rule applyH_gap_error)
next
  assume "headers \<noteq> []" "snapshots h s = Some obj"
    "HeaderNumber (headers ! 0) \<noteq> objNumber obj + 1"
  then show "applyH K G h s headers q qb = (h, Inl errInvalidVotingChain)"
    by (rule applyH_start_error)
next
  assume "headers \<noteq> []" "contiguous headers" "snapshots h s = Some obj"
    "HeaderNumber (headers ! 0) = objNumber obj + 1"
    "copyH h s = (h1, Inr snap)" "applyLoopH K G q qb h1 snap headers = (h2, Inl err)"
  then show "applyH K G h s headers q qb = (h2, Inl err)"
    by (rule applyH_fold_error)
next
  assume "wfSnap h s"
  then show "case apply_headers K (absSnap h s) headers q qb of
         Inl e \<Rightarrow> snd (applyH K G h s headers q qb) = Inl e
       | Inr c \<Rightarrow>
           (\<exists>p. snd (applyH K G h s headers q qb) = Inr p \<and>
                wfSnap (fst (applyH K G h s headers q qb)) p \<and>
                absSnap (fst (applyH K G h s headers q qb)) p = c)"
    by (rule applyH_sim)
qed

definition exObj :: snapshotObj where
  "exObj = \<lparr>objEpoch = 30000, objNumber = 100, objHash = 0,
            objVotes = \<lparr>sliceBase = 2, sliceLen = 1, sliceCap = 1\<rparr>,
            objTally = 3, objValSet = 4\<rparr>"

definition exHeap :: heap where
  "exHeap =
     \<lparr>snapshots = [1 \<mapsto> exObj],
      arrays = [2 \<mapsto> [Some (exVote 1 100 5 True)]],
      tallies = [3 \<mapsto> [5 \<mapsto> \<lparr>TallyAuthorize = True, TallyVotes = 1\<rparr>]],
      valsets = [4 \<mapsto> \<lparr>members = {1, 2, 3, 4}, policyId = 0\<rparr>],
      nextRef = 5\<rparr>"

lemmas store_eval = applyH_def copyH_def checkChain.simps legacyApplyH_def qbftApplyH_def
  checkpointH_def authorizedH_def voteH_def discardPreviousH.simps discardVotesByH.simps
  discardVotesOnH.simps castVoteH_def castH_def checkVoteH_def uncastH_def deleteVoteH_def
  deleteAtH_def appendH_def resolveH_def cellAt_def cellsOf_def lenVotes_def GetByAddress_def
  Size_def AddValidator_def RemoveValidator_def Copy_def nilSlice_def Let_def

lemma exHeap_unauthorized:
  "snd (applyH exParams (\<lambda>c. c) exHeap 1 [exHeader 101 9 5 True] False 0) = Inl errUnauthorized"
  by (simp add: store_eval ex_defs exHeap_def exObj_def)


lemma exHeap_voted:
  "snd (applyH exParams (\<lambda>c. c) exHeap 1 [exHeader 101 1 5 False, exHeader 102 2 5 True] False 0)
     = Inr 8"
  by (simp add: store_eval ex_defs exHeap_def exObj_def)

theorem apply_never_mutates_receiver_witness:
  "snapshots exHeap 1 = Some exObj \<and> allocated exHeap 1 \<and> wfSnap exHeap 1 \<and>
   \<not> contiguous [exHeader 101 1 5 False, exHeader 103 2 5 True] \<and>
   applyH exParams (\<lambda>c. c) exHeap 1 [exHeader 101 1 5 False, exHeader 103 2 5 True] False 0 =
     (exHeap, Inl errInvalidVotingChain) \<and>
   applyH exParams (\<lambda>c. c) exHeap 1 [exHeader 105 1 5 False] False 0 =
     (exHeap, Inl errInvalidVotingChain) \<and>
   snd (applyH exParams (\<lambda>c. c) exHeap 1 [exHeader 101 9 5 True] False 0) =
     Inl errUnauthorized \<and>
   snd (applyH exParams (\<lambda>c. c) exHeap 1
          [exHeader 101 1 5 False, exHeader 102 2 5 True] False 0) = Inr 8 \<and>
   snapshots (fst (applyH exParams (\<lambda>c. c) exHeap 1
          [exHeader 101 1 5 False, exHeader 102 2 5 True] False 0)) 1 = Some exObj \<and>
   arrays (fst (applyH exParams (\<lambda>c. c) exHeap 1
          [exHeader 101 1 5 False, exHeader 102 2 5 True] False 0)) 2 =
     Some [Some (exVote 1 100 5 True)] \<and>
   tallies (fst (applyH exParams (\<lambda>c. c) exHeap 1
          [exHeader 101 1 5 False, exHeader 102 2 5 True] False 0)) 3 =
     Some [5 \<mapsto> \<lparr>TallyAuthorize = True, TallyVotes = 1\<rparr>] \<and>
   absSnap (fst (applyH exParams (\<lambda>c. c) exHeap 1
          [exHeader 101 1 5 False, exHeader 102 2 5 True] False 0)) 1 = absSnap exHeap 1 \<and>
   apply_headers exParams (absSnap exHeap 1)
          [exHeader 101 1 5 False, exHeader 102 2 5 True] False 0 =
     Inr (absSnap (fst (applyH exParams (\<lambda>c. c) exHeap 1
          [exHeader 101 1 5 False, exHeader 102 2 5 True] False 0)) 8)"
proof -
  have s: "snapshots exHeap 1 = Some exObj" by (simp add: exHeap_def)
  have al: "allocated exHeap 1" by (simp add: allocated_def exHeap_def exObj_def)
  have wf: "wfSnap exHeap 1"
    by (simp add: wfSnap_def wfSlice_def cellsOf_def exHeap_def exObj_def)
  have nc: "\<not> contiguous [exHeader 101 1 5 False, exHeader 103 2 5 True]"
    by (simp add: contiguous_def exHeader_def)
  have ne: "[exHeader 101 1 5 False, exHeader 103 2 5 True] \<noteq> []"
    "[exHeader 105 1 5 False] \<noteq> []" by simp_all
  have ws: "HeaderNumber ([exHeader 105 1 5 False] ! 0) \<noteq> objNumber exObj + 1"
    by (simp add: exHeader_def exObj_def)
  note a = apply_never_mutates_receiver [of exHeap exParams "\<lambda>c. c" 1
      "[exHeader 101 1 5 False, exHeader 103 2 5 True]" False 0 exObj]
  note b = apply_never_mutates_receiver [of exHeap exParams "\<lambda>c. c" 1
      "[exHeader 105 1 5 False]" False 0 exObj]
  note c = apply_never_mutates_receiver [of exHeap exParams "\<lambda>c. c" 1
      "[exHeader 101 1 5 False, exHeader 102 2 5 True]" False 0 exObj]
  note c1 = c [THEN conjunct1]
  have 1: "applyH exParams (\<lambda>c. c) exHeap 1
             [exHeader 101 1 5 False, exHeader 103 2 5 True] False 0 =
           (exHeap, Inl errInvalidVotingChain)"
    by (rule a [THEN conjunct2, THEN conjunct2, THEN conjunct1, rule_format, OF ne(1) nc])
  have 2: "applyH exParams (\<lambda>c. c) exHeap 1 [exHeader 105 1 5 False] False 0 =
           (exHeap, Inl errInvalidVotingChain)"
    by (rule b [THEN conjunct2, THEN conjunct2, THEN conjunct2, THEN conjunct1, rule_format,
          OF ne(2) s ws])
  have n: "(1::nat) < nextRef exHeap" "(2::nat) < nextRef exHeap" "(3::nat) < nextRef exHeap"
    by (simp_all add: exHeap_def)
  have 3: "snapshots (fst (applyH exParams (\<lambda>c. c) exHeap 1
          [exHeader 101 1 5 False, exHeader 102 2 5 True] False 0)) 1 = Some exObj"
    using c1 [rule_format, OF n(1)] by (simp add: exHeap_def)
  have 4: "arrays (fst (applyH exParams (\<lambda>c. c) exHeap 1
          [exHeader 101 1 5 False, exHeader 102 2 5 True] False 0)) 2 =
     Some [Some (exVote 1 100 5 True)]"
    using c1 [rule_format, OF n(2)] by (simp add: exHeap_def)
  have 5: "tallies (fst (applyH exParams (\<lambda>c. c) exHeap 1
          [exHeader 101 1 5 False, exHeader 102 2 5 True] False 0)) 3 =
     Some [5 \<mapsto> \<lparr>TallyAuthorize = True, TallyVotes = 1\<rparr>]"
    using c1 [rule_format, OF n(3)] by (simp add: exHeap_def)
  define h1 where "h1 = fst (copyH exHeap 1)"
  define h2 where "h2 = fst (applyLoopH exParams (\<lambda>c. c) False 0 h1 8 [exHeader 101 9 5 True])"
  have cp: "copyH exHeap 1 = (h1, Inr 8)"
    unfolding h1_def by (simp add: store_eval exHeap_def exObj_def)
  have lp: "applyLoopH exParams (\<lambda>c. c) False 0 h1 8 [exHeader 101 9 5 True] =
            (h2, Inl errUnauthorized)"
    unfolding h2_def h1_def by (simp add: store_eval ex_defs exHeap_def exObj_def)
  have ok: "[exHeader 101 9 5 True] \<noteq> []" "contiguous [exHeader 101 9 5 True]"
    "HeaderNumber ([exHeader 101 9 5 True] ! 0) = objNumber exObj + 1"
    by (simp_all add: contiguous_def exHeader_def exObj_def)
  have "applyH exParams (\<lambda>c. c) exHeap 1 [exHeader 101 9 5 True] False 0 =
          (h2, Inl errUnauthorized)"
    by (rule apply_never_mutates_receiver [of exHeap exParams "\<lambda>c. c" 1
      "[exHeader 101 9 5 True]" False 0 exObj h1 8 h2 errUnauthorized,
      THEN conjunct2, THEN conjunct2, THEN conjunct2, THEN conjunct2, THEN conjunct1,
      rule_format, OF ok(1) ok(2) s ok(3) cp lp])
  then have 6: "snd (applyH exParams (\<lambda>c. c) exHeap 1 [exHeader 101 9 5 True] False 0) =
     Inl errUnauthorized" by simp
  have 7: "absSnap (fst (applyH exParams (\<lambda>c. c) exHeap 1
          [exHeader 101 1 5 False, exHeader 102 2 5 True] False 0)) 1 = absSnap exHeap 1"
    by (rule c [THEN conjunct2, THEN conjunct1, rule_format, OF al])
  note d = c [THEN conjunct2, THEN conjunct2, THEN conjunct2, THEN conjunct2, THEN conjunct2,
      rule_format, OF wf]
  have 8: "apply_headers exParams (absSnap exHeap 1)
          [exHeader 101 1 5 False, exHeader 102 2 5 True] False 0 =
     Inr (absSnap (fst (applyH exParams (\<lambda>c. c) exHeap 1
          [exHeader 101 1 5 False, exHeader 102 2 5 True] False 0)) 8)"
  proof (cases "apply_headers exParams (absSnap exHeap 1)
          [exHeader 101 1 5 False, exHeader 102 2 5 True] False 0")
    case (Inl e)
    then show ?thesis using d exHeap_voted by simp
  next
    case (Inr v)
    then show ?thesis using d exHeap_voted by auto
  qed
  show ?thesis
    using s al wf nc 1 2 3 4 5 6 7 8 exHeap_voted by simp
qed


end
